theory Spec2Isabelle
  imports Main "HOL-Library.Multiset"
begin

section \<open>Strings\<close>

text \<open>
  Strings are lists of characters. The email pattern only ever matches ASCII characters,
  so the model treats text as ASCII: \<open>toLowerCase\<close> maps \<open>A\<close>..\<open>Z\<close> to \<open>a\<close>..\<open>z\<close>
  and leaves every other character alone.
\<close>

definition upper_chars :: string where
  "upper_chars = ''ABCDEFGHIJKLMNOPQRSTUVWXYZ''"

definition lower_chars :: string where
  "lower_chars = ''abcdefghijklmnopqrstuvwxyz''"

definition digit_chars :: string where
  "digit_chars = ''0123456789''"

definition toLowerChar :: "char \<Rightarrow> char" where
  "toLowerChar c = (case map_of (zip upper_chars lower_chars) c of Some l \<Rightarrow> l | None \<Rightarrow> c)"

definition toLowerCase :: "string \<Rightarrow> string" where
  "toLowerCase s = map toLowerChar s"

definition startsWith :: "string \<Rightarrow> string \<Rightarrow> bool" where
  "startsWith s p = (take (length p) s = p)"

definition endsWith :: "string \<Rightarrow> string \<Rightarrow> bool" where
  "endsWith s p = (length p \<le> length s \<and> drop (length s - length p) s = p)"

text \<open>\<open>s.includes(p)\<close>: \<open>p\<close> occurs in \<open>s\<close> as a contiguous substring.\<close>

fun str_includes :: "string \<Rightarrow> string \<Rightarrow> bool" where
  "str_includes [] p = (p = [])"
| "str_includes (c # cs) p = (startsWith (c # cs) p \<or> str_includes cs p)"

text \<open>Decimal rendering of a number, as a template literal prints a status code.\<close>

fun show_nat :: "nat \<Rightarrow> string" where
  "show_nat n = (if n < 10 then [digit_chars ! n]
                 else show_nat (n div 10) @ [digit_chars ! (n mod 10)])"

declare show_nat.simps [simp del]

text \<open>\<open>[...new Set(xs)]\<close>: the distinct elements in order of first occurrence.\<close>

fun set_spread :: "'a list \<Rightarrow> 'a list \<Rightarrow> 'a list" where
  "set_spread seen [] = []"
| "set_spread seen (x # xs) =
     (if x \<in> set seen then set_spread seen xs else x # set_spread (x # seen) xs)"

definition new_Set :: "'a list \<Rightarrow> 'a list" where
  "new_Set xs = set_spread [] xs"

section \<open>The email pattern\<close>

text \<open>
  \<open>EMAIL_REGEX = /([a-zA-Z0-9._%+-]+@[a-zA-Z0-9.-]+\.[a-zA-Z]{2,})/g\<close>, matched the way a
  backtracking engine does. The three character classes:
\<close>

definition isAlpha :: "char \<Rightarrow> bool" where
  "isAlpha c = (c \<in> set (lower_chars @ upper_chars))"

definition isDomainChar :: "char \<Rightarrow> bool" where
  "isDomainChar c = (c \<in> set (lower_chars @ upper_chars @ digit_chars @ ''.-''))"

definition isLocalChar :: "char \<Rightarrow> bool" where
  "isLocalChar c = (c \<in> set (lower_chars @ upper_chars @ digit_chars @ ''._%+-''))"

text \<open>
  \<open>backtrack_domain d n\<close>: the greedy \<open>[a-zA-Z0-9.-]+\<close> has been given the run \<open>d\<close> and
  currently keeps its first \<open>n\<close> characters. The rest of the pattern needs a dot at
  position \<open>n\<close> followed by two or more letters (taken greedily); when that fails the
  engine gives back one character and tries again, and fails when none is left.
  The result is the matched text after the \<open>@\<close>.
\<close>

fun backtrack_domain :: "string \<Rightarrow> nat \<Rightarrow> string option" where
  "backtrack_domain d 0 = None"
| "backtrack_domain d (Suc n) =
     (if Suc n < length d \<and> d ! Suc n = CHR ''.''
         \<and> 2 \<le> length (takeWhile isAlpha (drop (Suc (Suc n)) d))
      then Some (take (Suc (Suc n)) d @ takeWhile isAlpha (drop (Suc (Suc n)) d))
      else backtrack_domain d n)"

text \<open>
  A match attempt anchored at the start of \<open>s\<close>. The local part is the maximal run of
  local characters (a shorter one would be followed by a local character, not by \<open>@\<close>),
  it must be non-empty and followed by \<open>@\<close>.
\<close>

definition match_here :: "string \<Rightarrow> string option" where
  "match_here s =
     (let l = takeWhile isLocalChar s in
      if l = [] then None
      else (case dropWhile isLocalChar s of
              [] \<Rightarrow> None
            | c # r \<Rightarrow>
                if c \<noteq> CHR ''@'' then None
                else (case backtrack_domain (takeWhile isDomainChar r)
                             (length (takeWhile isDomainChar r)) of
                        None \<Rightarrow> None
                      | Some dm \<Rightarrow> Some (l @ CHR ''@'' # dm))))"

lemma match_here_nonempty: "match_here s = Some m \<Longrightarrow> m \<noteq> []"
  by (auto simp: match_here_def Let_def split: if_splits list.splits option.splits)

text \<open>
  \<open>text.match(EMAIL_REGEX)\<close> with the global flag: all matches from left to right; after
  a match the scan resumes behind it, after a failed attempt one character further.
\<close>

function match_all :: "string \<Rightarrow> string list" where
  "match_all s =
     (if s = [] then []
      else (case match_here s of
              None \<Rightarrow> match_all (tl s)
            | Some m \<Rightarrow> m # match_all (drop (length m) s)))"
  by pat_completeness auto
termination
  by (relation "measure length") (auto dest: match_here_nonempty)

declare match_all.simps [simp del]

section \<open>Fetch outcomes\<close>

text \<open>
  What one call of \<open>fetch\<close> (under its timeout and abort signal) can end in, as the code
  distinguishes it: a response whose \<open>ok\<close> flag is set and whose body can be read
  (\<open>Success\<close>) or cannot (\<open>BodyFailure\<close>, with the message of the error \<open>text()\<close>
  throws), a response with a status outside 200..299 (\<open>HttpError\<close>), or a rejected
  promise: the deadline passed (\<open>Timeout\<close>), the transport failed (\<open>NetworkError\<close>) or
  the shared controller was aborted (\<open>Cancelled\<close>), each with the message of the error.
\<close>

datatype fetch_outcome =
    Success nat string
  | BodyFailure nat string
  | HttpError nat
  | Timeout string
  | NetworkError string
  | Cancelled string

text \<open>The observable effects of a run: requests issued and timers awaited.\<close>

datatype effect = Fetch string | Sleep nat

fun is_Fetch :: "effect \<Rightarrow> bool" where
  "is_Fetch (Fetch u) = True"
| "is_Fetch (Sleep d) = False"

fun is_Success :: "fetch_outcome \<Rightarrow> bool" where
  "is_Success (Success status body) = True"
| "is_Success outcome = False"

definition fetch_count :: "effect list \<Rightarrow> nat" where
  "fetch_count log = length (filter is_Fetch log)"

section \<open>EmailScraper (server/src/scrapeEmailsFromSite.ts)\<close>

definition EMAIL_EXCLUSIONS :: "string list" where
  "EMAIL_EXCLUSIONS =
     [''.png'', ''.jpg'', ''.gif'', ''.jpeg'', ''.webp'',
      ''example.com'', ''domain.com'', ''yourdomain'',
      ''@example'', ''@test'', ''@sample'',
      ''email@'', ''user@'']"

text \<open>
  \<open>EmailScraperConfig\<close>: every field is optional. Numbers are natural numbers in this
  model (counts and milliseconds).
\<close>

record EmailScraperConfig =
  opt_concurrency :: "nat option"
  opt_timeout :: "nat option"
  opt_maxRetries :: "nat option"
  opt_retryDelay :: "nat option"
  opt_excludePatterns :: "string list option"
  opt_userAgent :: "string option"

definition empty_config :: EmailScraperConfig where
  "empty_config =
     \<lparr>opt_concurrency = None, opt_timeout = None, opt_maxRetries = None,
      opt_retryDelay = None, opt_excludePatterns = None, opt_userAgent = None\<rparr>"

text \<open>\<open>Required<EmailScraperConfig>\<close>, the configuration an instance holds.\<close>

record RequiredConfig =
  concurrency :: nat
  timeout :: nat
  maxRetries :: nat
  retryDelay :: nat
  excludePatterns :: "string list"
  userAgent :: string

text \<open>\<open>x || d\<close> on an optional number and on an optional string: a missing value, \<open>0\<close>
  and the empty string are falsy.\<close>

definition num_or :: "nat option \<Rightarrow> nat \<Rightarrow> nat" where
  "num_or x d = (case x of None \<Rightarrow> d | Some n \<Rightarrow> if n = 0 then d else n)"

definition str_or :: "string option \<Rightarrow> string \<Rightarrow> string" where
  "str_or x d = (case x of None \<Rightarrow> d | Some s \<Rightarrow> if s = [] then d else s)"

text \<open>An instance: its configuration, and which \<open>AbortController\<close> it currently holds
  (the controllers of one instance are numbered in the order they are created).\<close>

record EmailScraper =
  config :: RequiredConfig
  controller :: nat

definition new_EmailScraper :: "EmailScraperConfig option \<Rightarrow> EmailScraper" where
  "new_EmailScraper arg =
     (let c = (case arg of None \<Rightarrow> empty_config | Some c \<Rightarrow> c) in
      \<lparr>config =
         \<lparr>concurrency = num_or (opt_concurrency c) 10,
          timeout = num_or (opt_timeout c) 10000,
          maxRetries = num_or (opt_maxRetries c) 2,
          retryDelay = num_or (opt_retryDelay c) 1000,
          excludePatterns =
            EMAIL_EXCLUSIONS @ (case opt_excludePatterns c of None \<Rightarrow> [] | Some ps \<Rightarrow> ps),
          userAgent = str_or (opt_userAgent c) ''Mozilla/5.0 (compatible; EmailScraper/1.0)''\<rparr>,
       controller = 0\<rparr>)"

definition EmailScraper_cancel :: "EmailScraper \<Rightarrow> EmailScraper" where
  "EmailScraper_cancel this = this\<lparr>controller := Suc (controller this)\<rparr>"

text \<open>\<open>extractEmails\<close> of the class: the filter keeps an email when it contains \<open>@\<close> and
  no exclusion pattern occurs in it, both lower-cased.\<close>

definition excluded :: "RequiredConfig \<Rightarrow> string \<Rightarrow> bool" where
  "excluded cfg email =
     list_ex (\<lambda>pattern. str_includes (toLowerCase email) (toLowerCase pattern))
       (excludePatterns cfg)"

definition EmailScraper_extractEmails :: "RequiredConfig \<Rightarrow> string \<Rightarrow> string list" where
  "EmailScraper_extractEmails cfg html =
     filter (\<lambda>email. str_includes email ''@'' \<and> \<not> excluded cfg email)
       (new_Set (match_all html))"

record ScrapingResult =
  url :: string
  emails :: "string list"
  success :: bool
  error :: "string option"

text \<open>
  The body of the \<open>try\<close> block in \<open>processSite\<close> once \<open>fetchWithTimeout\<close> has settled:
  either the emails, or the message of the error that reaches the \<open>catch\<close> clause.
\<close>

fun attempt :: "RequiredConfig \<Rightarrow> fetch_outcome \<Rightarrow> string + string list" where
  "attempt cfg (Success status html) = Inr (EmailScraper_extractEmails cfg html)"
| "attempt cfg (BodyFailure status message) = Inl message"
| "attempt cfg (HttpError status) = Inl (''HTTP error '' @ show_nat status)"
| "attempt cfg (Timeout message) = Inl message"
| "attempt cfg (NetworkError message) = Inl message"
| "attempt cfg (Cancelled message) = Inl message"

text \<open>\<open>error.message || 'Unknown error'\<close>\<close>

definition message_or_unknown :: "string \<Rightarrow> string" where
  "message_or_unknown message = (if message = [] then ''Unknown error'' else message)"

text \<open>
  The \<open>while\<close> loop of \<open>processSite\<close>. \<open>outcomes k\<close> is what the fetch issued while
  \<open>attempts = k\<close> ends in; the loop returns the result together with the effects it had.
\<close>

function processSite_loop ::
  "RequiredConfig \<Rightarrow> (nat \<Rightarrow> fetch_outcome) \<Rightarrow> string \<Rightarrow> nat \<Rightarrow> effect list
     \<Rightarrow> ScrapingResult \<times> effect list" where
  "processSite_loop cfg outcomes u attempts log =
     (if attempts \<le> maxRetries cfg then
        (case attempt cfg (outcomes attempts) of
           Inr found \<Rightarrow>
             (\<lparr>url = u, emails = found, success = True, error = None\<rparr>, log @ [Fetch u])
         | Inl message \<Rightarrow>
             if Suc attempts > maxRetries cfg
             then (\<lparr>url = u, emails = [], success = False,
                    error = Some (message_or_unknown message)\<rparr>, log @ [Fetch u])
             else processSite_loop cfg outcomes u (Suc attempts)
                    (log @ [Fetch u, Sleep (retryDelay cfg)]))
      else (\<lparr>url = u, emails = [], success = False,
              error = Some ''Maximum retries exceeded''\<rparr>, log))"
  by pat_completeness auto
termination
  by (relation "measure (\<lambda>(cfg, outcomes, u, attempts, log). Suc (maxRetries cfg) - attempts)") auto

declare processSite_loop.simps [simp del]

definition EmailScraper_processSite ::
  "EmailScraper \<Rightarrow> (nat \<Rightarrow> fetch_outcome) \<Rightarrow> string \<Rightarrow> ScrapingResult \<times> effect list" where
  "EmailScraper_processSite this outcomes u = processSite_loop (config this) outcomes u 0 []"



section \<open>The batched URL processor\<close>

record LinkState =
  title :: string
  link :: string

record ScrapedResult = LinkState +
  emails :: "string list"

text \<open>The free-standing \<open>extractEmails\<close>: filter first, then deduplicate.\<close>

definition extractEmails :: "string \<Rightarrow> string list" where
  "extractEmails text =
     new_Set (filter (\<lambda>email. str_includes email ''@'' \<and> \<not> endsWith email ''.png''
                                \<and> \<not> endsWith email ''.jpg'')
                (match_all text))"

text \<open>
  \<open>scrapeEmailsFromUrl\<close>, with \<open>safeFetch\<close> inlined: \<open>safeFetch\<close> turns every rejected
  fetch into \<open>null\<close>, for which the caller returns no emails. \<open>world u\<close> is what fetching
  \<open>u\<close> ends in. The metadata scrape that follows the extraction has its result dropped
  and its errors swallowed, so it does not show in the value returned. The function
  returns the emails and the requests it issued.
\<close>

definition scrapeEmailsFromUrl ::
  "(string \<Rightarrow> fetch_outcome) \<Rightarrow> string \<Rightarrow> string list \<times> effect list" where
  "scrapeEmailsFromUrl world u =
     (if u = [] \<or> \<not> startsWith u ''http'' then ([], [])
      else (case world u of
              Success status htmlText \<Rightarrow> (extractEmails htmlText, [Fetch u])
            | BodyFailure status message \<Rightarrow> ([], [Fetch u])
            | HttpError status \<Rightarrow> ([], [Fetch u])
            | Timeout message \<Rightarrow> ([], [Fetch u])
            | NetworkError message \<Rightarrow> ([], [Fetch u])
            | Cancelled message \<Rightarrow> ([], [Fetch u])))"

definition fetchEmails :: "(string \<Rightarrow> fetch_outcome) \<Rightarrow> LinkState \<Rightarrow> string list" where
  "fetchEmails world linkState = fst (scrapeEmailsFromUrl world (link linkState))"

subsection \<open>runWithConcurrency\<close>

text \<open>
  The runner's variables, between two turns of the event loop. \<open>pending\<close> is not a
  variable of the code: it lists the item indices whose worker has been admitted and has
  not reached its \<open>finally\<close> block yet, in order of admission. \<open>resolved\<close> records that
  \<open>resolve(results)\<close> has been called.
\<close>

record 'r runner =
  results :: "'r list"
  activeCount :: int
  index :: nat
  pending :: "nat list"
  resolved :: bool

definition runner_init :: "'r runner" where
  "runner_init = \<lparr>results = [], activeCount = 0, index = 0, pending = [], resolved = False\<rparr>"

text \<open>\<open>runNext\<close> up to its first \<open>await\<close>: it resolves, returns, or admits the next item.\<close>

definition runNext :: "'a list \<Rightarrow> 'r runner \<Rightarrow> 'r runner" where
  "runNext items s =
     (if index s \<ge> length items
      then (if activeCount s = 0 then s\<lparr>resolved := True\<rparr> else s)
      else s\<lparr>index := Suc (index s), activeCount := activeCount s + 1,
             pending := pending s @ [index s]\<rparr>)"

text \<open>
  The rest of the worker for item \<open>i\<close>, run when its handler settles: push the result
  (\<open>Inr\<close>) or log the error (\<open>Inl\<close>, nothing is pushed), then the \<open>finally\<close> block.
\<close>

definition settle :: "'a list \<Rightarrow> ('a \<Rightarrow> string + 'r) \<Rightarrow> nat \<Rightarrow> 'r runner \<Rightarrow> 'r runner" where
  "settle items handler i s =
     runNext items
       (s\<lparr>results := (case handler (items ! i) of
                         Inr result \<Rightarrow> results s @ [result]
                       | Inl err \<Rightarrow> results s),
          activeCount := activeCount s - 1,
          pending := remove1 i (pending s)\<rparr>)"

text \<open>The synchronous \<open>for\<close> loop that starts the initial workers.\<close>

definition start_workers :: "'a list \<Rightarrow> nat \<Rightarrow> 'r runner" where
  "start_workers items limit = (runNext items ^^ min limit (length items)) runner_init"

text \<open>
  Which pending worker finishes next is up to the timers and the network: \<open>pick\<close>
  chooses a position in the list of pending workers, so that every order of completion
  is the run of some \<open>pick\<close>. A worker is its random start delay followed by the
  handler; every handler is taken to settle, by fulfilling (\<open>Inr\<close>) or by throwing
  (\<open>Inl\<close>). The run ends when no worker is pending; \<open>drain\<close> lists the states it goes
  through, one per turn of the event loop. The limit is a natural number.
\<close>

definition next_done :: "(nat list \<Rightarrow> nat) \<Rightarrow> nat list \<Rightarrow> nat" where
  "next_done pick ps = ps ! (pick ps mod length ps)"

lemma next_done_in: "ps \<noteq> [] \<Longrightarrow> next_done pick ps \<in> set ps"
  by (simp add: next_done_def)

lemma length_pending_settle:
  "i \<in> set (pending s) \<Longrightarrow>
   (length items - index (settle items handler i s)) + length (pending (settle items handler i s))
     < (length items - index s) + length (pending s)"
proof -
  assume i: "i \<in> set (pending s)"
  then have "0 < length (pending s)" by (cases "pending s") auto
  moreover have "length (remove1 i (pending s)) = length (pending s) - 1"
    using i by (simp add: length_remove1)
  ultimately show ?thesis by (auto simp: settle_def runNext_def)
qed

function drain ::
  "'a list \<Rightarrow> ('a \<Rightarrow> string + 'r) \<Rightarrow> (nat list \<Rightarrow> nat) \<Rightarrow> 'r runner \<Rightarrow> 'r runner list" where
  "drain items handler pick s =
     (if pending s = [] then [s]
      else s # drain items handler pick (settle items handler (next_done pick (pending s)) s))"
  by pat_completeness auto
termination
  by (relation "measure (\<lambda>(items, handler, pick, s). (length items - index s) + length (pending s))")
     (auto intro: length_pending_settle next_done_in)

declare drain.simps [simp del]

definition run_states ::
  "'a list \<Rightarrow> ('a \<Rightarrow> string + 'r) \<Rightarrow> nat \<Rightarrow> (nat list \<Rightarrow> nat) \<Rightarrow> 'r runner list" where
  "run_states items handler limit pick = drain items handler pick (start_workers items limit)"

text \<open>The promise: \<open>Some\<close> of the results once resolved, \<open>None\<close> when it stays pending.\<close>

definition runWithConcurrency ::
  "'a list \<Rightarrow> ('a \<Rightarrow> string + 'r) \<Rightarrow> nat \<Rightarrow> (nat list \<Rightarrow> nat) \<Rightarrow> 'r list option" where
  "runWithConcurrency items handler limit pick =
     (let s = last (run_states items handler limit pick)
      in if resolved s then Some (results s) else None)"

lemma start_workers_Nil: "start_workers [] limit = runner_init"
  by (simp add: start_workers_def)

lemma runWithConcurrency_Nil: "runWithConcurrency [] handler limit pick = None"
  by (simp add: runWithConcurrency_def run_states_def start_workers_Nil drain.simps
      runner_init_def)

subsection \<open>processUrlBatch\<close>

text \<open>
  The options that steer the loop. A missing option takes its default (the defaults of a
  destructuring pattern apply to missing values only). Saving the results to a file
  happens after the loop and does not change what is returned; it is not modelled.
\<close>

record ProcessOptions =
  batchSize :: "nat option"
  concurrency :: "nat option"
  delayBetweenBatches :: "nat option"

definition or_default :: "'a option \<Rightarrow> 'a \<Rightarrow> 'a" where
  "or_default x d = (case x of None \<Rightarrow> d | Some v \<Rightarrow> v)"

text \<open>\<open>xs.slice(a, b)\<close> for indices \<open>0 \<le> a \<le> b\<close>.\<close>

definition slice :: "'a list \<Rightarrow> nat \<Rightarrow> nat \<Rightarrow> 'a list" where
  "slice xs a b = take (b - a) (drop a xs)"

text \<open>The handler that \<open>processUrlBatch\<close> passes to the runner; it never rejects, since
  \<open>fetchEmails\<close> catches every error.\<close>

definition scrape_item :: "(string \<Rightarrow> fetch_outcome) \<Rightarrow> LinkState \<Rightarrow> string + ScrapedResult" where
  "scrape_item world item =
     Inr \<lparr>title = title item, link = link item, emails = fetchEmails world item\<rparr>"

text \<open>What the loop does, in order: a batch run to completion (the batch and the
  results of its runner), or a pause of so many milliseconds.\<close>

datatype event = Batch "LinkState list" "ScrapedResult list" | Pause nat

text \<open>
  The \<open>for\<close> loop, from offset \<open>i\<close>. \<open>sched i\<close> is the order in which the workers of
  the batch at offset \<open>i\<close> finish. Awaiting a runner that never resolves never returns:
  the value is \<open>None\<close>. The runner's promise cannot reject, so the \<open>catch\<close> clause of the
  loop body is never entered.
\<close>

function batch_loop ::
  "LinkState list \<Rightarrow> nat \<Rightarrow> nat \<Rightarrow> nat \<Rightarrow> (string \<Rightarrow> fetch_outcome) \<Rightarrow> (nat \<Rightarrow> nat list \<Rightarrow> nat)
     \<Rightarrow> nat \<Rightarrow> ScrapedResult list \<Rightarrow> event list \<Rightarrow> (ScrapedResult list \<times> event list) option" where
  "batch_loop links bs conc pause world sched i allResults trace =
     (if i < length links then
        (case runWithConcurrency (slice links i (i + bs)) (scrape_item world) conc (sched i) of
           None \<Rightarrow> None
         | Some batchResults \<Rightarrow>
             batch_loop links bs conc pause world sched (i + bs)
               (allResults @ filter (\<lambda>result. length (emails result) > 0) batchResults)
               (trace @ [Batch (slice links i (i + bs)) batchResults]
                  @ (if i + bs < length links then [Pause pause] else [])))
      else Some (allResults, trace))"
  by pat_completeness auto
termination
proof (relation "measure (\<lambda>(links, bs, conc, pause, world, sched, i, allResults, trace). length links - i)")
  show "wf (measure (\<lambda>(links, bs, conc, pause, world, sched, i, allResults, trace). length links - i))"
    by simp
next
  fix links :: "LinkState list" and bs conc pause :: nat and world :: "string \<Rightarrow> fetch_outcome"
    and sched :: "nat \<Rightarrow> nat list \<Rightarrow> nat" and i :: nat and allResults :: "ScrapedResult list"
    and trace :: "event list" and batchResults :: "ScrapedResult list"
  assume i: "i < length links"
    and run: "runWithConcurrency (slice links i (i + bs)) (scrape_item world) conc (sched i)
                = Some batchResults"
  have "bs \<noteq> 0"
  proof
    assume "bs = 0"
    then have "slice links i (i + bs) = []" by (simp add: slice_def)
    with run show False by (simp add: runWithConcurrency_Nil)
  qed
  with i show "((links, bs, conc, pause, world, sched, i + bs,
                 allResults @ filter (\<lambda>result. length (emails result) > 0) batchResults,
                 trace @ [Batch (slice links i (i + bs)) batchResults]
                   @ (if i + bs < length links then [Pause pause] else [])),
                links, bs, conc, pause, world, sched, i, allResults, trace)
               \<in> measure (\<lambda>(links, bs, conc, pause, world, sched, i, allResults, trace). length links - i)"
    by simp
qed

declare batch_loop.simps [simp del]

definition processUrlBatch ::
  "LinkState list \<Rightarrow> ProcessOptions \<Rightarrow> (string \<Rightarrow> fetch_outcome) \<Rightarrow> (nat \<Rightarrow> nat list \<Rightarrow> nat)
     \<Rightarrow> (ScrapedResult list \<times> event list) option" where
  "processUrlBatch links options world sched =
     batch_loop links (or_default (batchSize options) 50)
       (or_default (concurrency options) 10)
       (or_default (delayBetweenBatches options) 3000) world sched 0 [] []"

section \<open>EmailScraper.scrapeEmails and scrapeEmailsFromSites\<close>

text \<open>
  \<open>chunkArray\<close>: the loop advances \<open>i\<close> by the chunk size. With size \<open>0\<close> and a non-empty array
  it never ends, which the model shows as \<open>None\<close>.
\<close>

function chunk_loop :: "'a list \<Rightarrow> nat \<Rightarrow> nat \<Rightarrow> 'a list list \<Rightarrow> 'a list list option" where
  "chunk_loop array csize i chunks =
     (if i < length array
      then (if csize = 0 then None
            else chunk_loop array csize (i + csize) (chunks @ [slice array i (i + csize)]))
      else Some chunks)"
  by pat_completeness auto
termination
  by (relation "measure (\<lambda>(array, csize, i, chunks). length array - i)") auto

declare chunk_loop.simps [simp del]

definition chunkArray :: "'a list \<Rightarrow> nat \<Rightarrow> 'a list list option" where
  "chunkArray array csize = chunk_loop array csize 0 []"

text \<open>The order in which the promises of one chunk settle, all being pending at once.\<close>

function finish_order :: "(nat list \<Rightarrow> nat) \<Rightarrow> nat list \<Rightarrow> nat list" where
  "finish_order pick ps =
     (if ps = [] then []
      else next_done pick ps # finish_order pick (remove1 (next_done pick ps) ps))"
  by pat_completeness auto
termination
  by (relation "measure (\<lambda>(pick, ps). length ps)")
     (auto simp: length_remove1 next_done_in intro!: diff_less)

declare finish_order.simps [simp del]

text \<open>
  One chunk of \<open>scrapeEmails\<close>: every site of the chunk is started, each result is pushed
  when its \<open>processSite\<close> settles, and \<open>Promise.all\<close> waits for all of them.
  \<open>world u k\<close> is what the fetch of \<open>u\<close> ends in while \<open>attempts = k\<close>.
\<close>

definition scrape_chunk ::
  "EmailScraper \<Rightarrow> (string \<Rightarrow> nat \<Rightarrow> fetch_outcome) \<Rightarrow> (nat list \<Rightarrow> nat) \<Rightarrow> LinkState list
     \<Rightarrow> ScrapingResult list" where
  "scrape_chunk this world pick batch =
     map (\<lambda>j. fst (EmailScraper_processSite this (world (link (batch ! j))) (link (batch ! j))))
       (finish_order pick [0..<length batch])"

definition EmailScraper_scrapeEmails ::
  "EmailScraper \<Rightarrow> LinkState list \<Rightarrow> (string \<Rightarrow> nat \<Rightarrow> fetch_outcome) \<Rightarrow> (nat \<Rightarrow> nat list \<Rightarrow> nat)
     \<Rightarrow> ScrapingResult list option" where
  "EmailScraper_scrapeEmails this sites world sched =
     (case chunkArray sites (RequiredConfig.concurrency (config this)) of
        None \<Rightarrow> None
      | Some batches \<Rightarrow>
          Some (concat (map (\<lambda>(k, batch). scrape_chunk this world (sched k) batch)
                          (enumerate 0 batches))))"


subsection \<open>The states of scrapeEmails\<close>

text \<open>
  What \<open>scrapeEmails\<close> holds between two turns of the event loop: the \<open>results\<close> array
  (\<open>pushed\<close>), the chunk whose promises \<open>Promise.all\<close> is waiting for (\<open>current\<close>), the
  positions in that chunk whose promise has not settled yet (\<open>waiting\<close>), and the chunks
  the \<open>for\<close> loop has not reached (\<open>unstarted\<close>). \<open>processSite\<close> never rejects, so
  every settlement pushes a result.
\<close>

record scrape_state =
  pushed :: "ScrapingResult list"
  current :: "LinkState list"
  waiting :: "nat list"
  unstarted :: "LinkState list list"

definition site_result ::
  "EmailScraper \<Rightarrow> (string \<Rightarrow> nat \<Rightarrow> fetch_outcome) \<Rightarrow> LinkState \<Rightarrow> ScrapingResult" where
  "site_result this world site =
     fst (EmailScraper_processSite this (world (link site)) (link site))"

text \<open>The \<open>then\<close> callback of the promise at position \<open>j\<close> of the current chunk.\<close>

definition scrape_settle ::
  "EmailScraper \<Rightarrow> (string \<Rightarrow> nat \<Rightarrow> fetch_outcome) \<Rightarrow> nat \<Rightarrow> scrape_state \<Rightarrow> scrape_state" where
  "scrape_settle this world j t =
     t\<lparr>pushed := pushed t @ [site_result this world (current t ! j)],
       waiting := remove1 j (waiting t)\<rparr>"

text \<open>One turn of the \<open>for\<close> loop up to its \<open>await\<close>: every site of the chunk is started.\<close>

definition start_chunk :: "LinkState list \<Rightarrow> LinkState list list \<Rightarrow> scrape_state \<Rightarrow> scrape_state" where
  "start_chunk batch rest t =
     t\<lparr>current := batch, waiting := [0..<length batch], unstarted := rest\<rparr>"

lemma length_waiting_settle:
  "j \<in> set (waiting t) \<Longrightarrow> length (waiting (scrape_settle this world j t)) < length (waiting t)"
proof -
  assume j: "j \<in> set (waiting t)"
  then have "0 < length (waiting t)" by (cases "waiting t") auto
  with j show ?thesis by (simp add: scrape_settle_def length_remove1)
qed

text \<open>The states while \<open>Promise.all\<close> waits for the current chunk.\<close>

function chunk_states ::
  "EmailScraper \<Rightarrow> (string \<Rightarrow> nat \<Rightarrow> fetch_outcome) \<Rightarrow> (nat list \<Rightarrow> nat) \<Rightarrow> scrape_state
     \<Rightarrow> scrape_state list" where
  "chunk_states this world pick t =
     (if waiting t = [] then [t]
      else t # chunk_states this world pick
                 (scrape_settle this world (next_done pick (waiting t)) t))"
  by pat_completeness auto
termination
  by (relation "measure (\<lambda>(this, world, pick, t). length (waiting t))")
     (auto intro: length_waiting_settle next_done_in)

declare chunk_states.simps [simp del]

text \<open>The states of the chunks from number \<open>k\<close> on, one chunk after the other.\<close>

fun batches_states ::
  "EmailScraper \<Rightarrow> (string \<Rightarrow> nat \<Rightarrow> fetch_outcome) \<Rightarrow> (nat \<Rightarrow> nat list \<Rightarrow> nat) \<Rightarrow> nat
     \<Rightarrow> scrape_state \<Rightarrow> LinkState list list \<Rightarrow> scrape_state list" where
  "batches_states this world sched k t [] = []"
| "batches_states this world sched k t (batch # rest) =
     chunk_states this world (sched k) (start_chunk batch rest t)
       @ batches_states this world sched (Suc k)
           (last (chunk_states this world (sched k) (start_chunk batch rest t))) rest"

definition scrape_init :: "LinkState list list \<Rightarrow> scrape_state" where
  "scrape_init batches = \<lparr>pushed = [], current = [], waiting = [], unstarted = batches\<rparr>"

definition scrape_states ::
  "EmailScraper \<Rightarrow> LinkState list \<Rightarrow> (string \<Rightarrow> nat \<Rightarrow> fetch_outcome) \<Rightarrow> (nat \<Rightarrow> nat list \<Rightarrow> nat)
     \<Rightarrow> scrape_state list option" where
  "scrape_states this sites world sched =
     (case chunkArray sites (RequiredConfig.concurrency (config this)) of
        None \<Rightarrow> None
      | Some batches \<Rightarrow>
          Some (scrape_init batches
                  # batches_states this world sched 0 (scrape_init batches) batches))"

section \<open>Notions used to state the properties\<close>

text \<open>The results of the handlers that do not throw, in the order of the items.\<close>

fun delivered :: "('a \<Rightarrow> string + 'r) \<Rightarrow> 'a list \<Rightarrow> 'r list" where
  "delivered handler [] = []"
| "delivered handler (x # xs) =
     (case handler x of Inr r \<Rightarrow> r # delivered handler xs | Inl e \<Rightarrow> delivered handler xs)"

text \<open>The order in which the workers of a run finish: the item indices, first to last.\<close>

function settled_from ::
  "'a list \<Rightarrow> ('a \<Rightarrow> string + 'r) \<Rightarrow> (nat list \<Rightarrow> nat) \<Rightarrow> 'r runner \<Rightarrow> nat list" where
  "settled_from items handler pick s =
     (if pending s = [] then []
      else next_done pick (pending s)
             # settled_from items handler pick (settle items handler (next_done pick (pending s)) s))"
  by pat_completeness auto
termination
  by (relation "measure (\<lambda>(items, handler, pick, s). (length items - index s) + length (pending s))")
     (auto intro: length_pending_settle next_done_in)

declare settled_from.simps [simp del]

definition completion_order ::
  "'a list \<Rightarrow> ('a \<Rightarrow> string + 'r) \<Rightarrow> nat \<Rightarrow> (nat list \<Rightarrow> nat) \<Rightarrow> nat list" where
  "completion_order items handler limit pick =
     settled_from items handler pick (start_workers items limit)"

text \<open>Consecutive chunks of size \<open>n\<close>, the last one possibly shorter.\<close>

function chunks_of :: "nat \<Rightarrow> 'a list \<Rightarrow> 'a list list" where
  "chunks_of n xs = (if n = 0 \<or> xs = [] then [] else take n xs # chunks_of n (drop n xs))"
  by pat_completeness auto
termination
  by (relation "measure (\<lambda>(n, xs). length xs)") auto

declare chunks_of.simps [simp del]

text \<open>A list with a separator between any two neighbours, and none at either end.\<close>

fun separate :: "'a \<Rightarrow> 'a list \<Rightarrow> 'a list" where
  "separate a [] = []"
| "separate a [x] = [x]"
| "separate a (x # y # zs) = x # a # separate a (y # zs)"

text \<open>An event without the results: the batch processed, or the pause taken.\<close>

fun outline :: "event \<Rightarrow> LinkState list + nat" where
  "outline (Batch batch batchResults) = Inl batch"
| "outline (Pause ms) = Inr ms"

fun batch_results :: "event \<Rightarrow> ScrapedResult list" where
  "batch_results (Batch batch batchResults) = batchResults"
| "batch_results (Pause ms) = []"

text \<open>The result the pipeline computes for one target.\<close>

definition result_for :: "(string \<Rightarrow> fetch_outcome) \<Rightarrow> LinkState \<Rightarrow> ScrapedResult" where
  "result_for world item =
     \<lparr>title = title item, link = link item, emails = fetchEmails world item\<rparr>"

text \<open>
  What holds of the runner's variables between two turns of the event loop: the counter
  equals the number of pending workers, which is at most the limit and equals the limit
  while an item is still unstarted; the promise is resolved only when nothing is pending
  and every item has been started.
\<close>

definition runner_inv :: "'a list \<Rightarrow> nat \<Rightarrow> 'r runner \<Rightarrow> bool" where
  "runner_inv items limit s =
     (activeCount s = int (length (pending s))
      \<and> length (pending s) \<le> limit
      \<and> index s \<le> length items
      \<and> (index s < length items \<longrightarrow> length (pending s) = limit)
      \<and> (resolved s \<longrightarrow> pending s = [] \<and> index s = length items))"

text \<open>Every result the handlers deliver is in the results, pending, or not yet started.\<close>

definition accounted :: "'a list \<Rightarrow> ('a \<Rightarrow> string + 'r) \<Rightarrow> 'r runner \<Rightarrow> bool" where
  "accounted items handler s =
     (mset (results s) + mset (delivered handler (map ((!) items) (pending s)))
        + mset (delivered handler (drop (index s) items))
      = mset (delivered handler items))"

text \<open>
  One turn of \<open>scrapeEmails\<close>, from state \<open>t\<close> to state \<open>t'\<close>: while a promise of the
  current chunk is pending, one of them settles; only when none is pending does the \<open>for\<close>
  loop go on and start the next chunk, all of it at once.
\<close>

definition scrape_step ::
  "EmailScraper \<Rightarrow> (string \<Rightarrow> nat \<Rightarrow> fetch_outcome) \<Rightarrow> scrape_state \<Rightarrow> scrape_state \<Rightarrow> bool" where
  "scrape_step this world t t' =
     (if waiting t \<noteq> [] then list_ex (\<lambda>j. t' = scrape_settle this world j t) (waiting t)
      else (case unstarted t of
              [] \<Rightarrow> False
            | batch # rest \<Rightarrow> t' = start_chunk batch rest t))"

section \<open>Properties of the extractor\<close>

lemma set_spread_props:
  "distinct (set_spread seen xs) \<and> set (set_spread seen xs) = set xs - set seen"
  by (induction xs arbitrary: seen) auto

lemma distinct_new_Set: "distinct (new_Set xs)"
  by (simp add: new_Set_def set_spread_props)

text \<open>
  Claim C3, as the code has it. Both extractors deduplicate through a \<open>Set\<close> of strings,
  so no two entries of a result are the same string; entries that differ in letter case
  only are different strings and are all kept. The extractor of \<open>EmailScraper\<close> returns
  no entry in which a configured exclusion pattern occurs, both compared in lower case.
\<close>

theorem extractEmails_verbatim_distinct_and_filtered:
  "distinct (EmailScraper_extractEmails cfg html)
   \<and> (\<forall>e \<in> set (EmailScraper_extractEmails cfg html). \<forall>p \<in> set (excludePatterns cfg).
         \<not> str_includes (toLowerCase e) (toLowerCase p))
   \<and> distinct (extractEmails body)"
  by (auto simp: EmailScraper_extractEmails_def extractEmails_def excluded_def
      distinct_new_Set list_ex_iff)

theorem extractEmails_verbatim_distinct_and_filtered_witness:
  "''Info@Shop.io'' \<in> set (EmailScraper_extractEmails (config (new_EmailScraper None))
                               ''Info@Shop.io, info@shop.io, logo@2x.PNG'')
   \<and> ''.png'' \<in> set (excludePatterns (config (new_EmailScraper None)))
   \<and> \<not> str_includes (toLowerCase ''Info@Shop.io'') (toLowerCase ''.png'')"
proof -
  have e: "''Info@Shop.io'' \<in> set (EmailScraper_extractEmails (config (new_EmailScraper None))
                                      ''Info@Shop.io, info@shop.io, logo@2x.PNG'')"
    by code_simp
  have p: "''.png'' \<in> set (excludePatterns (config (new_EmailScraper None)))"
    by code_simp
  from extractEmails_verbatim_distinct_and_filtered
         [of "config (new_EmailScraper None)" "''Info@Shop.io, info@shop.io, logo@2x.PNG''"]
       e p
  show ?thesis by blast
qed

text \<open>
  Claim C3, as stated, fails: on the body \<open>A@b.co a@b.co\<close> either extractor returns both
  spellings, which are equal once letter case is ignored.
\<close>

theorem extractEmails_case_variants_counterexample:
  "\<not> distinct (map toLowerCase
        (EmailScraper_extractEmails (config (new_EmailScraper None)) ''A@b.co a@b.co''))
   \<and> \<not> distinct (map toLowerCase (extractEmails ''A@b.co a@b.co''))"
  by code_simp

section \<open>Properties of the singleton\<close>




section \<open>Properties of the retry loop\<close>

lemma fetch_count_append [simp]: "fetch_count (xs @ ys) = fetch_count xs + fetch_count ys"
  by (simp add: fetch_count_def)

lemma fetch_count_simps [simp]:
  "fetch_count [] = 0"
  "fetch_count (Fetch u # xs) = Suc (fetch_count xs)"
  "fetch_count (Sleep d # xs) = fetch_count xs"
  by (simp_all add: fetch_count_def)

lemma fetch_count_retries [simp]:
  "fetch_count (concat (replicate n [Fetch u, Sleep d])) = n"
  by (induction n) simp_all

lemma attempt_fails_iff: "isl (attempt cfg outcome) = (\<not> is_Success outcome)"
  by (cases outcome) simp_all

text \<open>While attempts fail and retries remain, the loop fetches, sleeps and goes on.\<close>

lemma processSite_loop_retry:
  assumes "attempt cfg (outcomes a) = Inl message" and "a < maxRetries cfg"
  shows "processSite_loop cfg outcomes u a log
           = processSite_loop cfg outcomes u (Suc a) (log @ [Fetch u, Sleep (retryDelay cfg)])"
  using assms by (subst processSite_loop.simps) simp

lemma processSite_loop_last:
  assumes "attempt cfg (outcomes a) = Inl message" and "a = maxRetries cfg"
  shows "processSite_loop cfg outcomes u a log
           = (\<lparr>url = u, emails = [], success = False,
                error = Some (message_or_unknown message)\<rparr>, log @ [Fetch u])"
  using assms by (subst processSite_loop.simps) simp

lemma processSite_loop_grows:
  "fetch_count log \<le> fetch_count (snd (processSite_loop cfg outcomes u a log))"
proof (induction cfg outcomes u a log rule: processSite_loop.induct)
  case (1 cfg outcomes u attempts log)
  show ?case
  proof (cases "attempts \<le> maxRetries cfg")
    case False
    then show ?thesis by (subst processSite_loop.simps) simp
  next
    case True
    show ?thesis
    proof (cases "attempt cfg (outcomes attempts)")
      case (Inr found)
      with True show ?thesis by (subst processSite_loop.simps) simp
    next
      case (Inl message)
      show ?thesis
      proof (cases "Suc attempts > maxRetries cfg")
        case True
        with Inl \<open>attempts \<le> maxRetries cfg\<close> show ?thesis
          by (subst processSite_loop.simps) simp
      next
        case False
        with "1.IH" [OF \<open>attempts \<le> maxRetries cfg\<close> Inl False] Inl True show ?thesis
          by (subst processSite_loop.simps) simp
      qed
    qed
  qed
qed

lemma processSite_loop_fetches:
  assumes "a \<le> maxRetries cfg"
  shows "Suc (fetch_count log) \<le> fetch_count (snd (processSite_loop cfg outcomes u a log))"
proof (cases "attempt cfg (outcomes a)")
  case (Inr found)
  with assms show ?thesis by (subst processSite_loop.simps) simp
next
  case (Inl message)
  show ?thesis
  proof (cases "a < maxRetries cfg")
    case True
    have "fetch_count (log @ [Fetch u, Sleep (retryDelay cfg)])
            \<le> fetch_count (snd (processSite_loop cfg outcomes u (Suc a)
                                   (log @ [Fetch u, Sleep (retryDelay cfg)])))"
      by (rule processSite_loop_grows)
    then show ?thesis
      by (simp add: processSite_loop_retry [where outcomes = outcomes and a = a, OF Inl True])
  next
    case False
    with assms have eq: "a = maxRetries cfg" by simp
    show ?thesis
      unfolding processSite_loop_last [where outcomes = outcomes and a = a, OF Inl eq] by simp
  qed
qed

text \<open>\<open>processSite\<close> has no check of the URL: it always issues a request.\<close>

lemma processSite_always_fetches:
  "Suc 0 \<le> fetch_count (snd (EmailScraper_processSite this outcomes u))"
  using processSite_loop_fetches [of 0 "config this" "[]" outcomes u]
  by (simp add: EmailScraper_processSite_def)

text \<open>A run of failed attempts \<open>a, ..., a + n - 1\<close>, all before the last one allowed.\<close>

lemma processSite_loop_failures:
  assumes "\<forall>j. a \<le> j \<and> j < a + n \<longrightarrow> isl (attempt cfg (outcomes j))" and "a + n \<le> maxRetries cfg"
  shows "processSite_loop cfg outcomes u a log
           = processSite_loop cfg outcomes u (a + n)
               (log @ concat (replicate n [Fetch u, Sleep (retryDelay cfg)]))"
  using assms
proof (induction n arbitrary: a log)
  case 0
  then show ?case by simp
next
  case (Suc n)
  from Suc.prems(1) have "isl (attempt cfg (outcomes a))" by simp
  then obtain message where m: "attempt cfg (outcomes a) = Inl message"
    by (cases "attempt cfg (outcomes a)") auto
  have lt: "a < maxRetries cfg" using Suc.prems(2) by simp
  have "processSite_loop cfg outcomes u (Suc a) (log @ [Fetch u, Sleep (retryDelay cfg)])
          = processSite_loop cfg outcomes u (Suc a + n)
              ((log @ [Fetch u, Sleep (retryDelay cfg)])
                 @ concat (replicate n [Fetch u, Sleep (retryDelay cfg)]))"
    using Suc.prems by (intro Suc.IH) auto
  then show ?case
    by (simp add: processSite_loop_retry [where outcomes = outcomes and a = a, OF m lt])
qed

text \<open>What \<open>processSite\<close> does when every attempt it makes fails.\<close>

lemma processSite_all_fail:
  assumes "\<forall>j \<le> maxRetries (config this). isl (attempt (config this) (outcomes j))"
    and "attempt (config this) (outcomes (maxRetries (config this))) = Inl message"
  shows "EmailScraper_processSite this outcomes u
           = (\<lparr>url = u, emails = [], success = False, error = Some (message_or_unknown message)\<rparr>,
              concat (replicate (maxRetries (config this)) [Fetch u, Sleep (retryDelay (config this))])
                @ [Fetch u])"
proof -
  let ?cfg = "config this"
  have "processSite_loop ?cfg outcomes u 0 []
          = processSite_loop ?cfg outcomes u (0 + maxRetries ?cfg)
              ([] @ concat (replicate (maxRetries ?cfg) [Fetch u, Sleep (retryDelay ?cfg)]))"
    using assms(1) by (intro processSite_loop_failures) auto
  also have "\<dots> = (\<lparr>url = u, emails = [], success = False,
                      error = Some (message_or_unknown message)\<rparr>,
                    concat (replicate (maxRetries ?cfg) [Fetch u, Sleep (retryDelay ?cfg)])
                      @ [Fetch u])"
    using processSite_loop_last [where outcomes = outcomes and a = "maxRetries ?cfg", OF assms(2) refl]
    by simp
  finally show ?thesis by (simp add: EmailScraper_processSite_def)
qed

text \<open>
  Claim C2. When every attempt of \<open>processSite\<close> ends in a timeout or a network error,
  \<open>fetch\<close> is called \<open>maxRetries + 1\<close> times, where \<open>maxRetries\<close> is the value the
  instance holds, and the result has \<open>success = false\<close>, no emails, and as \<open>error\<close> the
  message of the last failure (\<open>Unknown error\<close> when that message is empty).
\<close>

theorem processSite_exhausts_retries:
  assumes "\<forall>j \<le> maxRetries (config this).
             (\<exists>m. outcomes j = Timeout m) \<or> (\<exists>m. outcomes j = NetworkError m)"
    and "outcomes (maxRetries (config this)) = Timeout message
         \<or> outcomes (maxRetries (config this)) = NetworkError message"
  shows "fetch_count (snd (EmailScraper_processSite this outcomes u)) = maxRetries (config this) + 1
         \<and> fst (EmailScraper_processSite this outcomes u)
             = \<lparr>url = u, emails = [], success = False,
                error = Some (message_or_unknown message)\<rparr>"
proof -
  have "\<forall>j \<le> maxRetries (config this). isl (attempt (config this) (outcomes j))"
    using assms(1) by fastforce
  moreover have "attempt (config this) (outcomes (maxRetries (config this))) = Inl message"
    using assms(2) by auto
  ultimately show ?thesis
    by (simp add: processSite_all_fail)
qed

theorem processSite_exhausts_retries_witness:
  "fetch_count (snd (EmailScraper_processSite (new_EmailScraper None)
                       (\<lambda>k. Timeout ''The operation was aborted'') ''http://slow.test'')) = 3
   \<and> fst (EmailScraper_processSite (new_EmailScraper None)
             (\<lambda>k. Timeout ''The operation was aborted'') ''http://slow.test'')
       = \<lparr>url = ''http://slow.test'', emails = [], success = False,
          error = Some ''The operation was aborted''\<rparr>"
  using processSite_exhausts_retries
          [of "new_EmailScraper None" "\<lambda>k. Timeout ''The operation was aborted''"
              "''The operation was aborted''" "''http://slow.test''"]
  by (simp add: new_EmailScraper_def num_or_def empty_config_def message_or_unknown_def)

text \<open>
  Claim C1, as the code has it. \<open>processSite\<close> treats an HTTP error status and a
  cancellation like any other failure. When attempt number \<open>k\<close> (counted from 0, all
  earlier attempts having failed) ends in an HTTP error or a cancellation and is not the
  last attempt allowed, at least one further fetch follows it; when it is the last
  attempt allowed (\<open>k = maxRetries\<close>), \<open>k + 1\<close> fetches have been made and the result
  is the failed one carrying its message.
\<close>

theorem processSite_retries_every_failure:
  assumes "\<forall>j \<le> k. \<not> is_Success (outcomes j)"
    and "outcomes k = HttpError status \<or> outcomes k = Cancelled message"
  shows "(k < maxRetries (config this) \<longrightarrow>
            k + 2 \<le> fetch_count (snd (EmailScraper_processSite this outcomes u)))
         \<and> (k = maxRetries (config this) \<longrightarrow>
            fetch_count (snd (EmailScraper_processSite this outcomes u)) = k + 1
            \<and> fst (EmailScraper_processSite this outcomes u)
                = \<lparr>url = u, emails = [], success = False,
                   error = Some (message_or_unknown
                             (if outcomes k = HttpError status
                              then ''HTTP error '' @ show_nat status else message))\<rparr>)"
proof -
  let ?cfg = "config this"
  have fails: "\<forall>j \<le> k. isl (attempt ?cfg (outcomes j))"
    using assms(1) by (simp add: attempt_fails_iff)
  have more: "k + 2 \<le> fetch_count (snd (EmailScraper_processSite this outcomes u))"
    if lt: "k < maxRetries ?cfg"
  proof -
    have "processSite_loop ?cfg outcomes u 0 []
            = processSite_loop ?cfg outcomes u (0 + Suc k)
                ([] @ concat (replicate (Suc k) [Fetch u, Sleep (retryDelay ?cfg)]))"
      using fails lt by (intro processSite_loop_failures) auto
    moreover have "Suc (fetch_count (concat (replicate (Suc k) [Fetch u, Sleep (retryDelay ?cfg)])))
          \<le> fetch_count (snd (processSite_loop ?cfg outcomes u (Suc k)
                                 (concat (replicate (Suc k) [Fetch u, Sleep (retryDelay ?cfg)]))))"
      using lt by (intro processSite_loop_fetches) simp
    ultimately show ?thesis
      by (simp add: EmailScraper_processSite_def del: replicate.simps)
  qed
  have last: "EmailScraper_processSite this outcomes u
                = (\<lparr>url = u, emails = [], success = False,
                     error = Some (message_or_unknown
                               (if outcomes k = HttpError status
                                then ''HTTP error '' @ show_nat status else message))\<rparr>,
                   concat (replicate k [Fetch u, Sleep (retryDelay ?cfg)]) @ [Fetch u])"
    if eq: "k = maxRetries ?cfg"
  proof -
    have "attempt ?cfg (outcomes (maxRetries ?cfg))
            = Inl (if outcomes k = HttpError status
                   then ''HTTP error '' @ show_nat status else message)"
      using assms(2) eq by auto
    moreover have "\<forall>j \<le> maxRetries ?cfg. isl (attempt ?cfg (outcomes j))"
      using fails eq by simp
    ultimately show ?thesis
      unfolding eq by (rule processSite_all_fail [rotated])
  qed
  from more last show ?thesis by simp
qed

text \<open>
  Claim C1, as stated, fails: with the default configuration a site that always answers
  404 is fetched three times, so is one whose fetch is always cancelled, and a 503
  followed by a good response yields a successful result, not a failed one.
\<close>

theorem processSite_retries_http_error_counterexample:
  "fetch_count (snd (EmailScraper_processSite (new_EmailScraper None)
                       (\<lambda>k. HttpError 404) ''http://shop.test'')) = 3
   \<and> fetch_count (snd (EmailScraper_processSite (new_EmailScraper None)
                       (\<lambda>k. Cancelled ''This operation was aborted'') ''http://shop.test'')) = 3
   \<and> fst (EmailScraper_processSite (new_EmailScraper None)
                       (\<lambda>k. if k = 0 then HttpError 503 else Success 200 ''sales@shop.io'')
                       ''http://shop.test'')
       = \<lparr>url = ''http://shop.test'', emails = [''sales@shop.io''], success = True, error = None\<rparr>"
  by code_simp

theorem processSite_retries_every_failure_witness:
  "2 \<le> fetch_count (snd (EmailScraper_processSite (new_EmailScraper None)
                            (\<lambda>k. HttpError 404) ''http://shop.test''))"
  using processSite_retries_every_failure
          [where k = 0 and this = "new_EmailScraper None" and outcomes = "\<lambda>k. HttpError 404"
             and status = 404 and message = "[]" and u = "''http://shop.test''"]
  by (simp add: new_EmailScraper_def num_or_def empty_config_def)

section \<open>Properties of chunking and of scrapeEmails\<close>

lemma chunks_of_Nil [simp]: "chunks_of n [] = []"
  by (simp add: chunks_of.simps)

lemma chunks_of_eq_Nil: "chunks_of n xs = [] \<longleftrightarrow> n = 0 \<or> xs = []"
  by (subst chunks_of.simps) simp

lemma chunks_of_step:
  "0 < n \<Longrightarrow> xs \<noteq> [] \<Longrightarrow> chunks_of n xs = take n xs # chunks_of n (drop n xs)"
  by (subst chunks_of.simps) simp

lemma concat_chunks_of: "0 < n \<Longrightarrow> concat (chunks_of n xs) = xs"
proof (induction n xs rule: chunks_of.induct)
  case (1 n xs)
  then show ?case by (cases "xs = []") (simp_all add: chunks_of_step)
qed

lemma chunks_of_lengths:
  "c \<in> set (chunks_of n xs) \<Longrightarrow> 0 < length c \<and> length c \<le> n"
proof (induction n xs rule: chunks_of.induct)
  case (1 n xs)
  show ?case
  proof (cases "n = 0 \<or> xs = []")
    case True
    with "1.prems" show ?thesis by (simp add: chunks_of_eq_Nil [THEN iffD2])
  next
    case False
    with "1.prems" "1.IH" show ?thesis
      by (auto simp: chunks_of_step)
  qed
qed


lemma chunk_loop_Some:
  "0 < n \<Longrightarrow> chunk_loop array n i chunks = Some (chunks @ chunks_of n (drop i array))"
proof (induction array n i chunks rule: chunk_loop.induct)
  case (1 array n i chunks)
  show ?case
  proof (cases "i < length array")
    case False
    then show ?thesis by (subst chunk_loop.simps) simp
  next
    case True
    have rest: "drop n (drop i array) = drop (i + n) array" by (simp add: add.commute)
    have "chunks_of n (drop i array) = take n (drop i array) # chunks_of n (drop n (drop i array))"
      using True "1.prems" by (intro chunks_of_step) simp_all
    then have step: "chunks_of n (drop i array)
                       = slice array i (i + n) # chunks_of n (drop (i + n) array)"
      unfolding rest by (simp add: slice_def)
    have "chunk_loop array n i chunks
            = chunk_loop array n (i + n) (chunks @ [slice array i (i + n)])"
      using True "1.prems" by (subst chunk_loop.simps) simp
    also have "\<dots> = Some ((chunks @ [slice array i (i + n)]) @ chunks_of n (drop (i + n) array))"
      using True "1.prems" by (intro "1.IH") simp_all
    finally show ?thesis unfolding step by simp
  qed
qed

lemma chunkArray_Some: "0 < n \<Longrightarrow> chunkArray array n = Some (chunks_of n array)"
  by (simp add: chunkArray_def chunk_loop_Some)

lemma chunkArray_lengths:
  assumes "chunkArray array n = Some bs" and "b \<in> set bs"
  shows "length b \<le> n"
proof (cases "n = 0")
  case True
  with assms show ?thesis
    by (simp add: chunkArray_def chunk_loop.simps split: if_splits)
next
  case False
  with assms have "b \<in> set (chunks_of n array)" by (simp add: chunkArray_Some)
  then show ?thesis using chunks_of_lengths by blast
qed

lemma mset_finish_order: "mset (finish_order pick ps) = mset ps"
proof (induction pick ps rule: finish_order.induct)
  case (1 pick ps)
  show ?case
  proof (cases "ps = []")
    case True
    then show ?thesis by (simp add: finish_order.simps)
  next
    case False
    then have "next_done pick ps \<in> set ps" by (rule next_done_in)
    with False "1.IH" show ?thesis
      by (subst finish_order.simps) simp
  qed
qed

lemma scrape_chunk_eq:
  "scrape_chunk this world pick batch
     = map (\<lambda>j. site_result this world (batch ! j)) (finish_order pick [0..<length batch])"
  by (simp add: scrape_chunk_def site_result_def)

lemma mset_scrape_chunk:
  "mset (scrape_chunk this world pick batch) = mset (map (site_result this world) batch)"
proof -
  have "mset (scrape_chunk this world pick batch)
          = image_mset (\<lambda>j. site_result this world (batch ! j))
              (mset (finish_order pick [0..<length batch]))"
    by (simp add: scrape_chunk_eq)
  also have "\<dots> = mset (map (\<lambda>j. site_result this world (batch ! j)) [0..<length batch])"
    by (simp add: mset_finish_order)
  also have "map (\<lambda>j. site_result this world (batch ! j)) [0..<length batch]
               = map (site_result this world) (map ((!) batch) [0..<length batch])"
    by simp
  also have "map ((!) batch) [0..<length batch] = batch" by (rule map_nth)
  finally show ?thesis .
qed

lemma mset_scrape_chunks:
  "mset (concat (map (\<lambda>(k, batch). scrape_chunk this world (sched k) batch) (enumerate k batches)))
     = mset (map (site_result this world) (concat batches))"
  by (induction batches arbitrary: k) (simp_all add: mset_scrape_chunk)

lemma scrapeEmails_one_result_per_site:
  assumes "0 < RequiredConfig.concurrency (config this)"
  shows "\<exists>rs. EmailScraper_scrapeEmails this sites world sched = Some rs
              \<and> mset rs = mset (map (site_result this world) sites)"
  using assms
  by (simp add: EmailScraper_scrapeEmails_def chunkArray_Some mset_scrape_chunks concat_chunks_of)

lemma chunk_states_nonempty: "chunk_states this world pick t \<noteq> []"
  by (subst chunk_states.simps) simp

lemma chunk_states_inv:
  "t' \<in> set (chunk_states this world pick t) \<Longrightarrow>
   length (waiting t') \<le> length (waiting t) \<and> current t' = current t \<and> unstarted t' = unstarted t"
proof (induction this world pick t rule: chunk_states.induct)
  case (1 this world pick t)
  show ?case
  proof (cases "waiting t = []")
    case True
    with "1.prems" show ?thesis by (simp add: chunk_states.simps)
  next
    case False
    let ?t = "scrape_settle this world (next_done pick (waiting t)) t"
    have "length (waiting ?t) < length (waiting t)"
      using False by (intro length_waiting_settle next_done_in)
    moreover have "current ?t = current t" "unstarted ?t = unstarted t"
      by (simp_all add: scrape_settle_def)
    ultimately show ?thesis
      using "1.prems" "1.IH" [OF False] False
      by (subst (asm) chunk_states.simps) auto
  qed
qed

lemma chunk_states_last:
  "pushed (last (chunk_states this world pick t))
     = pushed t @ map (\<lambda>j. site_result this world (current t ! j)) (finish_order pick (waiting t))"
proof (induction this world pick t rule: chunk_states.induct)
  case (1 this world pick t)
  show ?case
  proof (cases "waiting t = []")
    case True
    then show ?thesis by (simp add: chunk_states.simps finish_order.simps)
  next
    case False
    let ?j = "next_done pick (waiting t)"
    let ?t = "scrape_settle this world ?j t"
    have "pushed (last (chunk_states this world pick t))
            = pushed (last (chunk_states this world pick ?t))"
      using False by (subst chunk_states.simps) (simp add: chunk_states_nonempty)
    also have "\<dots> = pushed ?t
                 @ map (\<lambda>j. site_result this world (current ?t ! j)) (finish_order pick (waiting ?t))"
      using False by (rule "1.IH")
    also have "\<dots> = pushed t
                 @ map (\<lambda>j. site_result this world (current t ! j)) (finish_order pick (waiting t))"
      using False by (subst (2) finish_order.simps) (simp add: scrape_settle_def)
    finally show ?thesis .
  qed
qed

lemma batches_states_waiting:
  "\<forall>b \<in> set batches. length b \<le> n \<Longrightarrow> t' \<in> set (batches_states this world sched k t batches)
     \<Longrightarrow> length (waiting t') \<le> n"
proof (induction batches arbitrary: k t)
  case Nil
  then show ?case by simp
next
  case (Cons batch rest)
  let ?sts = "chunk_states this world (sched k) (start_chunk batch rest t)"
  from Cons.prems(2) consider "t' \<in> set ?sts"
    | "t' \<in> set (batches_states this world sched (Suc k) (last ?sts) rest)"
    by auto
  then show ?case
  proof cases
    case 1
    then have "length (waiting t') \<le> length (waiting (start_chunk batch rest t))"
      using chunk_states_inv by blast
    with Cons.prems(1) show ?thesis by (simp add: start_chunk_def)
  next
    case 2
    with Cons.IH Cons.prems(1) show ?thesis by simp
  qed
qed

lemma batches_states_last:
  "pushed (last (t # batches_states this world sched k t batches))
     = pushed t @ concat (map (\<lambda>(k, batch). scrape_chunk this world (sched k) batch)
                            (enumerate k batches))"
proof (induction batches arbitrary: k t)
  case Nil
  then show ?case by simp
next
  case (Cons batch rest)
  let ?sts = "chunk_states this world (sched k) (start_chunk batch rest t)"
  have "last (t # batches_states this world sched k t (batch # rest))
          = last (last ?sts # batches_states this world sched (Suc k) (last ?sts) rest)"
    by (simp add: chunk_states_nonempty)
  moreover have "pushed (last ?sts) = pushed t @ scrape_chunk this world (sched k) batch"
    by (simp add: chunk_states_last scrape_chunk_eq start_chunk_def)
  ultimately show ?case
    using Cons.IH [of "last ?sts" "Suc k"] by simp
qed

lemma scrape_states_results:
  assumes "scrape_states this sites world sched = Some sts"
  shows "EmailScraper_scrapeEmails this sites world sched = Some (pushed (last sts))"
proof -
  from assms obtain batches where
    b: "chunkArray sites (RequiredConfig.concurrency (config this)) = Some batches" and
    sts: "sts = scrape_init batches # batches_states this world sched 0 (scrape_init batches) batches"
    by (auto simp: scrape_states_def split: option.splits)
  have "pushed (last sts)
          = pushed (scrape_init batches)
              @ concat (map (\<lambda>(k, batch). scrape_chunk this world (sched k) batch)
                          (enumerate 0 batches))"
    unfolding sts by (rule batches_states_last)
  then show ?thesis
    by (simp add: EmailScraper_scrapeEmails_def b scrape_init_def)
qed

lemma scrape_states_waiting:
  assumes "scrape_states this sites world sched = Some sts" and "t \<in> set sts"
  shows "length (waiting t) \<le> RequiredConfig.concurrency (config this)"
proof -
  from assms(1) obtain batches where
    b: "chunkArray sites (RequiredConfig.concurrency (config this)) = Some batches" and
    sts: "sts = scrape_init batches # batches_states this world sched 0 (scrape_init batches) batches"
    by (auto simp: scrape_states_def split: option.splits)
  have "\<forall>b \<in> set batches. length b \<le> RequiredConfig.concurrency (config this)"
    using chunkArray_lengths [OF b] by blast
  with assms(2) sts show ?thesis
    using batches_states_waiting by (auto simp: scrape_init_def)
qed


lemma chunk_states_hd: "hd (chunk_states this world pick t) = t"
  by (subst chunk_states.simps) simp

lemma chunk_states_last_waiting: "waiting (last (chunk_states this world pick t)) = []"
proof (induction this world pick t rule: chunk_states.induct)
  case (1 this world pick t)
  show ?case
  proof (cases "waiting t = []")
    case True
    then show ?thesis by (simp add: chunk_states.simps)
  next
    case False
    with "1.IH" show ?thesis
      by (subst chunk_states.simps) (simp add: chunk_states_nonempty)
  qed
qed

lemma chunk_states_last_unstarted:
  "unstarted (last (chunk_states this world pick t)) = unstarted t"
  using chunk_states_inv [OF last_in_set [OF chunk_states_nonempty]] by blast

lemma chunk_states_steps: "successively (scrape_step this world) (chunk_states this world pick t)"
proof (induction this world pick t rule: chunk_states.induct)
  case (1 this world pick t)
  show ?case
  proof (cases "waiting t = []")
    case True
    then show ?thesis by (simp add: chunk_states.simps)
  next
    case False
    let ?t = "scrape_settle this world (next_done pick (waiting t)) t"
    have "scrape_step this world t ?t"
      using False next_done_in [OF False, of pick]
      by (auto simp: scrape_step_def list_ex_iff)
    moreover have "successively (scrape_step this world) (chunk_states this world pick ?t)"
      using False by (rule "1.IH")
    ultimately show ?thesis
      using False
      by (subst chunk_states.simps) (simp add: successively_Cons chunk_states_hd)
  qed
qed

lemma batches_states_steps:
  "waiting t = [] \<Longrightarrow> unstarted t = batches \<Longrightarrow>
   successively (scrape_step this world) (t # batches_states this world sched k t batches)"
proof (induction batches arbitrary: k t)
  case Nil
  then show ?case by simp
next
  case (Cons batch rest)
  let ?sts = "chunk_states this world (sched k) (start_chunk batch rest t)"
  let ?tail = "batches_states this world sched (Suc k) (last ?sts) rest"
  have first: "scrape_step this world t (hd ?sts)"
    using Cons.prems by (simp add: scrape_step_def chunk_states_hd)
  have "unstarted (last ?sts) = rest"
    by (simp add: chunk_states_last_unstarted start_chunk_def)
  then have tail: "successively (scrape_step this world) (last ?sts # ?tail)"
    by (intro Cons.IH chunk_states_last_waiting)
  have "successively (scrape_step this world) (?sts @ ?tail)"
    using chunk_states_steps [of this world "sched k" "start_chunk batch rest t"] tail
    by (auto simp: successively_append_iff successively_Cons)
  with first show ?case
    by (simp add: successively_Cons chunk_states_nonempty)
qed

lemma scrape_states_steps:
  assumes "scrape_states this sites world sched = Some sts"
  shows "successively (scrape_step this world) sts"
proof -
  from assms obtain batches where
    sts: "sts = scrape_init batches # batches_states this world sched 0 (scrape_init batches) batches"
    by (auto simp: scrape_states_def split: option.splits)
  show ?thesis
    unfolding sts by (rule batches_states_steps) (simp_all add: scrape_init_def)
qed

lemma processSite_all_fail_result:
  assumes "\<forall>j \<le> maxRetries (config this). \<not> is_Success (outcomes j)"
  shows "ScrapingResult.emails (fst (EmailScraper_processSite this outcomes u)) = []
         \<and> \<not> success (fst (EmailScraper_processSite this outcomes u))
         \<and> fetch_count (snd (EmailScraper_processSite this outcomes u)) = maxRetries (config this) + 1"
proof -
  have fails: "\<forall>j \<le> maxRetries (config this). isl (attempt (config this) (outcomes j))"
    using assms by (simp add: attempt_fails_iff)
  then obtain message where
    "attempt (config this) (outcomes (maxRetries (config this))) = Inl message"
    by (cases "attempt (config this) (outcomes (maxRetries (config this)))") auto
  with fails show ?thesis
    by (simp add: processSite_all_fail)
qed

section \<open>Properties of the batch runner\<close>

lemma runNext_funpow:
  "k \<le> length items \<Longrightarrow>
   (runNext items ^^ k) runner_init
     = \<lparr>results = [], activeCount = int k, index = k, pending = [0..<k], resolved = False\<rparr>"
  by (induction k) (simp_all add: runner_init_def runNext_def)

lemma start_workers_eq:
  "start_workers items limit
     = \<lparr>results = [], activeCount = int (min limit (length items)),
        index = min limit (length items), pending = [0..<min limit (length items)],
        resolved = False\<rparr>"
  unfolding start_workers_def by (rule runNext_funpow) simp

lemma runner_inv_start: "runner_inv items limit (start_workers items limit)"
  by (auto simp: start_workers_eq runner_inv_def)

lemma int_pred: "0 < n \<Longrightarrow> int (n - 1) = int n - 1"
  by (cases n) simp_all

lemma runner_inv_settle:
  assumes "runner_inv items limit s" and "i \<in> set (pending s)"
  shows "runner_inv items limit (settle items handler i s)"
proof -
  from assms(2) have pos: "0 < length (pending s)" by (cases "pending s") auto
  have len: "length (remove1 i (pending s)) = length (pending s) - 1"
    using assms(2) by (simp add: length_remove1)
  have int_len: "int (length (pending s) - 1) = int (length (pending s)) - 1"
    using pos by (rule int_pred)
  from assms(1) pos len int_len show ?thesis
    by (auto simp: runner_inv_def settle_def runNext_def)
qed

lemma runner_inv_drain:
  "runner_inv items limit s \<Longrightarrow> s' \<in> set (drain items handler pick s) \<Longrightarrow> runner_inv items limit s'"
proof (induction items handler pick s rule: drain.induct)
  case (1 items handler pick s)
  show ?case
  proof (cases "pending s = []")
    case True
    with "1.prems" show ?thesis by (simp add: drain.simps)
  next
    case False
    then have "runner_inv items limit (settle items handler (next_done pick (pending s)) s)"
      using "1.prems"(1) by (intro runner_inv_settle next_done_in)
    with False "1.IH" "1.prems" show ?thesis
      by (subst (asm) drain.simps) auto
  qed
qed

lemma delivered_append: "delivered h (xs @ ys) = delivered h xs @ delivered h ys"
  by (induction xs) (auto split: sum.splits)

lemma delivered_remove1:
  "i \<in> set ps \<Longrightarrow>
   mset (delivered h (map f (remove1 i ps))) + mset (delivered h [f i]) = mset (delivered h (map f ps))"
  by (induction ps) (auto split: sum.splits)

lemma accounted_start: "accounted items handler (start_workers items limit)"
proof -
  have "map ((!) items) [0..<min limit (length items)] = take (min limit (length items)) items"
    by (metis min.cobounded2 take_upt add_0 map_nth take_map)
  then show ?thesis
    by (simp add: accounted_def start_workers_eq flip: mset_append delivered_append)
qed

lemma accounted_settle:
  assumes "accounted items handler s" and "i \<in> set (pending s)"
  shows "accounted items handler (settle items handler i s)"
proof -
  let ?ps = "remove1 i (pending s)"
  define R where "R = mset (results s)"
  define X where "X = mset (delivered handler [items ! i])"
  define P' where "P' = mset (delivered handler (map ((!) items) ?ps))"
  define D where "D = mset (delivered handler (drop (index s) items))"
  have rm: "mset (delivered handler (map ((!) items) (pending s))) = P' + X"
    unfolding P'_def X_def using assms(2) by (rule delivered_remove1 [symmetric])
  have total: "R + (P' + X) + D = mset (delivered handler items)"
    using assms(1) by (simp add: accounted_def rm R_def D_def)
  have res: "mset (case handler (items ! i) of Inr r \<Rightarrow> results s @ [r] | Inl e \<Rightarrow> results s)
               = R + X"
    by (simp add: R_def X_def split: sum.splits)
  show ?thesis
  proof (cases "index s < length items")
    case True
    then have "drop (index s) items = [items ! index s] @ drop (Suc (index s)) items"
      by (simp add: Cons_nth_drop_Suc)
    then have dr: "D = mset (delivered handler [items ! index s])
                        + mset (delivered handler (drop (Suc (index s)) items))"
      unfolding D_def by (simp only: delivered_append mset_append)
    have adm: "mset (delivered handler (map ((!) items) ?ps @ [items ! index s]))
                 = P' + mset (delivered handler [items ! index s])"
      unfolding P'_def by (simp only: delivered_append mset_append)
    have "R + X + (P' + mset (delivered handler [items ! index s]))
            + mset (delivered handler (drop (Suc (index s)) items))
          = mset (delivered handler items)"
      using total dr by (simp add: ac_simps)
    with True show ?thesis
      by (simp add: accounted_def settle_def runNext_def res adm del: delivered.simps)
  next
    case False
    have "R + X + P' + D = mset (delivered handler items)"
      using total by (simp add: ac_simps)
    with False show ?thesis
      by (auto simp add: accounted_def settle_def runNext_def res P'_def D_def
               simp del: delivered.simps)
  qed
qed

lemma accounted_drain:
  "accounted items handler s \<Longrightarrow> s' \<in> set (drain items handler pick s)
     \<Longrightarrow> accounted items handler s'"
proof (induction items handler pick s rule: drain.induct)
  case (1 items handler pick s)
  show ?case
  proof (cases "pending s = []")
    case True
    with "1.prems" show ?thesis by (simp add: drain.simps)
  next
    case False
    then have "accounted items handler (settle items handler (next_done pick (pending s)) s)"
      using "1.prems"(1) by (intro accounted_settle next_done_in)
    with False "1.IH" "1.prems" show ?thesis
      by (subst (asm) drain.simps) auto
  qed
qed

lemma drain_nonempty: "drain items handler pick s \<noteq> []"
  by (subst drain.simps) simp

lemma last_drain_in: "last (drain items handler pick s) \<in> set (drain items handler pick s)"
  by (rule last_in_set) (rule drain_nonempty)

lemma settle_resolves_when_idle:
  assumes "runner_inv items limit s" and "i \<in> set (pending s)"
    and "pending (settle items handler i s) = []"
  shows "resolved (settle items handler i s)"
proof -
  from assms(2) have pos: "0 < length (pending s)" by (cases "pending s") auto
  have int_len: "int (length (pending s) - 1) = int (length (pending s)) - 1"
    using pos by (rule int_pred)
  have len: "length (remove1 i (pending s)) = length (pending s) - 1"
    using assms(2) by (simp add: length_remove1)
  from assms(1,3) len int_len show ?thesis
    by (auto simp: runner_inv_def settle_def runNext_def split: if_splits)
qed

lemma resolved_last_drain:
  "runner_inv items limit s \<Longrightarrow> (pending s = [] \<longrightarrow> resolved s)
     \<Longrightarrow> resolved (last (drain items handler pick s))"
proof (induction items handler pick s rule: drain.induct)
  case (1 items handler pick s)
  show ?case
  proof (cases "pending s = []")
    case True
    with "1.prems" show ?thesis by (simp add: drain.simps)
  next
    case False
    let ?s' = "settle items handler (next_done pick (pending s)) s"
    have i: "next_done pick (pending s) \<in> set (pending s)"
      using False by (rule next_done_in)
    have "runner_inv items limit ?s'"
      using "1.prems"(1) i by (rule runner_inv_settle)
    moreover have "pending ?s' = [] \<longrightarrow> resolved ?s'"
      using settle_resolves_when_idle [OF "1.prems"(1) i] by blast
    ultimately have "resolved (last (drain items handler pick ?s'))"
      using "1.IH" False by blast
    with False show ?thesis
      by (subst drain.simps) (simp add: drain_nonempty)
  qed
qed

lemma runWithConcurrency_resolves:
  assumes "items \<noteq> []" and "0 < limit"
  shows "\<exists>rs. runWithConcurrency items handler limit pick = Some rs
              \<and> mset rs = mset (delivered handler items)
              \<and> index (last (run_states items handler limit pick)) = length items"
proof -
  let ?s0 = "start_workers items limit :: 'b runner"
  let ?fin = "last (drain items handler pick ?s0)"
  have "pending ?s0 \<noteq> []"
    using assms by (simp add: start_workers_eq)
  then have res: "resolved ?fin"
    by (intro resolved_last_drain [OF runner_inv_start]) simp
  have "runner_inv items limit ?fin"
    using runner_inv_start last_drain_in by (rule runner_inv_drain)
  with res have idx: "index ?fin = length items" and pend: "pending ?fin = []"
    by (simp_all add: runner_inv_def)
  have "accounted items handler ?fin"
    using accounted_start last_drain_in by (rule accounted_drain)
  with idx pend have "mset (results ?fin) = mset (delivered handler items)"
    by (simp add: accounted_def)
  with res idx show ?thesis
    by (simp add: runWithConcurrency_def run_states_def)
qed

lemma results_last_drain:
  "results (last (drain items handler pick s))
     = results s @ delivered handler (map ((!) items) (settled_from items handler pick s))"
proof (induction items handler pick s rule: drain.induct)
  case (1 items handler pick s)
  show ?case
  proof (cases "pending s = []")
    case True
    then show ?thesis by (simp add: drain.simps settled_from.simps)
  next
    case False
    let ?i = "next_done pick (pending s)"
    have res: "results (settle items handler ?i s) = results s @ delivered handler [items ! ?i]"
      by (simp add: settle_def runNext_def split: sum.splits)
    have "results (last (drain items handler pick s))
            = results (last (drain items handler pick (settle items handler ?i s)))"
      using False by (subst drain.simps) (simp add: drain_nonempty)
    also have "\<dots> = results (settle items handler ?i s)
                       @ delivered handler (map ((!) items)
                           (settled_from items handler pick (settle items handler ?i s)))"
      using False by (rule "1.IH")
    also have "\<dots> = results s @ delivered handler (map ((!) items) (settled_from items handler pick s))"
      using False unfolding res
      by (subst (2) settled_from.simps) (simp split: sum.splits)
    finally show ?thesis .
  qed
qed

lemma pending_settle:
  "pending (settle items handler i s)
     = (if index s < length items then remove1 i (pending s) @ [index s] else remove1 i (pending s))"
  "index (settle items handler i s) = (if index s < length items then Suc (index s) else index s)"
  by (simp_all add: settle_def runNext_def)

lemma mset_settled_from:
  "(pending s = [] \<longrightarrow> length items \<le> index s) \<Longrightarrow>
   mset (settled_from items handler pick s) = mset (pending s) + mset [index s..<length items]"
proof (induction items handler pick s rule: settled_from.induct)
  case (1 items handler pick s)
  show ?case
  proof (cases "pending s = []")
    case True
    with "1.prems" show ?thesis by (simp add: settled_from.simps)
  next
    case False
    let ?i = "next_done pick (pending s)"
    let ?s' = "settle items handler ?i s"
    have i: "?i \<in> set (pending s)" using False by (rule next_done_in)
    define R where "R = mset (remove1 ?i (pending s))"
    have P: "mset (pending s) = add_mset ?i R"
      using i by (simp add: R_def)
    have "pending ?s' = [] \<longrightarrow> length items \<le> index ?s'"
      by (simp add: pending_settle)
    then have IH: "mset (settled_from items handler pick ?s')
                     = mset (pending ?s') + mset [index ?s'..<length items]"
      using False by (intro "1.IH")
    have unfold: "mset (settled_from items handler pick s)
            = add_mset ?i (mset (settled_from items handler pick ?s'))"
      using False by (subst settled_from.simps) simp
    have "add_mset ?i (mset (pending ?s') + mset [index ?s'..<length items])
            = add_mset ?i R + mset [index s..<length items]"
    proof (cases "index s < length items")
      case True
      then have u: "mset [index s..<length items]
                   = add_mset (index s) (mset [Suc (index s)..<length items])"
        by (simp add: upt_conv_Cons)
      have p: "mset (pending ?s') = add_mset (index s) R"
        using True by (simp add: pending_settle R_def)
      have x: "index ?s' = Suc (index s)"
        using True by (simp add: pending_settle)
      show ?thesis unfolding u p x by simp
    next
      case False
      then have p: "mset (pending ?s') = R" and x: "index ?s' = index s"
        by (simp_all add: pending_settle R_def)
      show ?thesis unfolding p x by simp
    qed
    then have "mset (settled_from items handler pick s)
                 = mset (pending s) + mset [index s..<length items]"
      unfolding unfold IH P .
    then show ?thesis .
  qed
qed

lemma mset_completion_order:
  assumes "items \<noteq> []" and "0 < limit"
  shows "mset (completion_order items handler limit pick) = mset [0..<length items]"
proof -
  have "pending (start_workers items limit :: 'b runner) \<noteq> []"
    using assms by (simp add: start_workers_eq)
  then have "mset (completion_order items handler limit pick)
               = mset [0..<min limit (length items)] + mset [min limit (length items)..<length items]"
    unfolding completion_order_def
    by (subst mset_settled_from) (simp_all add: start_workers_eq)
  also have "\<dots> = mset ([0..<min limit (length items)] @ [min limit (length items)..<length items])"
    by simp
  also have "[0..<min limit (length items)] @ [min limit (length items)..<length items]
               = [0..<length items]"
    by (metis upt_add_eq_append le0 min.cobounded2 le_add_diff_inverse add_0)
  finally show ?thesis .
qed

lemma runWithConcurrency_in_completion_order:
  "runWithConcurrency items handler limit pick = Some rs \<Longrightarrow>
   rs = delivered handler (map ((!) items) (completion_order items handler limit pick))"
  by (auto simp: runWithConcurrency_def run_states_def completion_order_def Let_def
        results_last_drain start_workers_eq split: if_splits)

lemma delivered_all_fulfilled:
  "\<forall>x \<in> set xs. \<exists>r. handler x = Inr r \<Longrightarrow> length (delivered handler xs) = length xs"
  by (induction xs) auto

text \<open>
  Claim C4, as the code has it. Every worker being taken to settle: for a non-empty list
  of items and a limit of at least one, whatever the order in which the workers finish,
  \<open>runWithConcurrency\<close> resolves, by then every item has been started, and the results
  are the results of the handlers that did not throw, listed in the order in which the
  workers finished (a rearrangement of the items): one per such item, none twice, none
  missing. An item whose handler throws contributes no result. When no handler throws
  there are as many results as items. \<open>EmailScraper.scrapeEmails\<close>, for a concurrency of
  at least one, returns one result per site, up to order: its worker \<open>processSite\<close>
  never throws.
\<close>

theorem runner_returns_fulfilled_results:
  assumes "items \<noteq> []" and "0 < limit" and "0 < RequiredConfig.concurrency (config this)"
  shows "(\<exists>rs. runWithConcurrency items handler limit pick = Some rs
              \<and> rs = delivered handler
                        (map ((!) items) (completion_order items handler limit pick))
              \<and> mset (completion_order items handler limit pick) = mset [0..<length items]
              \<and> mset rs = mset (delivered handler items)
              \<and> index (last (run_states items handler limit pick)) = length items
              \<and> ((\<forall>x \<in> set items. \<exists>r. handler x = Inr r) \<longrightarrow> length rs = length items))
         \<and> (\<exists>rs. EmailScraper_scrapeEmails this sites world sched = Some rs
              \<and> mset rs = mset (map (site_result this world) sites)
              \<and> length rs = length sites)"
proof -
  from runWithConcurrency_resolves [OF assms(1,2), of handler pick]
  obtain rs where rs: "runWithConcurrency items handler limit pick = Some rs"
    "mset rs = mset (delivered handler items)"
    "index (last (run_states items handler limit pick)) = length items"
    by blast
  have order: "rs = delivered handler
                      (map ((!) items) (completion_order items handler limit pick))"
    using rs(1) by (rule runWithConcurrency_in_completion_order)
  have perm: "mset (completion_order items handler limit pick) = mset [0..<length items]"
    using assms(1,2) by (rule mset_completion_order)
  have "length rs = length (delivered handler items)"
    using rs(2) by (rule mset_eq_length)
  then have full: "(\<forall>x \<in> set items. \<exists>r. handler x = Inr r) \<longrightarrow> length rs = length items"
    by (simp add: delivered_all_fulfilled)
  from scrapeEmails_one_result_per_site [OF assms(3), of sites world sched]
  obtain ss where ss: "EmailScraper_scrapeEmails this sites world sched = Some ss"
    "mset ss = mset (map (site_result this world) sites)"
    by blast
  have "length ss = length (map (site_result this world) sites)"
    using ss(2) by (rule mset_eq_length)
  then have "length ss = length sites" by simp
  with rs order perm full ss show ?thesis by blast
qed

theorem runner_returns_fulfilled_results_witness:
  "(\<exists>rs. runWithConcurrency [''a'', ''b'', ''c'']
            (\<lambda>x. if x = ''b'' then Inl ''boom'' else Inr (x @ ''!'')) 2 (\<lambda>ps. 1) = Some rs
        \<and> rs = [''c!'', ''a!''])
   \<and> (\<exists>rs. EmailScraper_scrapeEmails (new_EmailScraper None)
               [\<lparr>title = ''A'', link = ''http://a.test''\<rparr>, \<lparr>title = ''B'', link = ''http://b.test''\<rparr>]
               (\<lambda>u k. Timeout ''late'') (\<lambda>k ps. 1) = Some rs
        \<and> length rs = 2)"
proof -
  have order: "completion_order [''a'', ''b'', ''c'']
                 (\<lambda>x. if x = ''b'' then Inl ''boom'' else Inr (x @ ''!'')) 2 (\<lambda>ps. 1) = [1, 2, 0]"
    by code_simp
  have conc: "0 < RequiredConfig.concurrency (config (new_EmailScraper None))"
    by (simp add: new_EmailScraper_def num_or_def empty_config_def)
  from runner_returns_fulfilled_results
         [where items = "[''a'', ''b'', ''c'']" and limit = 2
            and handler = "\<lambda>x. if x = ''b'' then Inl ''boom'' else Inr (x @ ''!'')"
            and pick = "\<lambda>ps. 1" and this = "new_EmailScraper None"
            and sites = "[\<lparr>title = ''A'', link = ''http://a.test''\<rparr>,
                          \<lparr>title = ''B'', link = ''http://b.test''\<rparr>]"
            and world = "\<lambda>u k. Timeout ''late''" and sched = "\<lambda>k ps. 1", OF _ _ conc]
  show ?thesis
    unfolding order by auto
qed

text \<open>
  Claim C4, as stated, fails: of two items the one whose handler throws yields no
  result, so the runner returns one result for two targets.
\<close>

theorem runner_drops_throwing_worker_counterexample:
  "runWithConcurrency [''a'', ''b'']
     (\<lambda>x. if x = ''a'' then Inl ''boom'' else Inr (x @ ''!'')) 10 (\<lambda>ps. 0) = Some [''b!'']"
  by code_simp

text \<open>
  Claim C5, as the code has it. In every state \<open>runWithConcurrency\<close> goes through,
  whatever the order in which the workers finish, the counter \<open>activeCount\<close> is the
  number of workers in flight and is at most the limit; while an item is still unstarted
  exactly \<open>limit\<close> workers are in flight, because the turn in which a worker finishes
  also starts the next unstarted item. A worker counts as in flight from its admission
  on, its start delay included. \<open>EmailScraper.scrapeEmails\<close> has at most
  \<open>config.concurrency\<close> sites in flight as well, but it partitions the sites into fixed
  chunks: each of its turns either settles one site of the current chunk, starting
  nothing, or, when no site of the current chunk is pending any more, starts the whole
  next chunk; its result is what has been pushed in the last state.
\<close>

theorem runner_sliding_window:
  assumes "s \<in> set (run_states items handler limit pick)"
    and "scrape_states this sites world sched = Some sts"
  shows "activeCount s = int (length (pending s)) \<and> activeCount s \<le> int limit
         \<and> (index s < length items \<longrightarrow> length (pending s) = limit)
         \<and> (\<forall>i \<in> set (pending s). index s < length items \<longrightarrow>
               pending (settle items handler i s) = remove1 i (pending s) @ [index s]
               \<and> index (settle items handler i s) = Suc (index s))
         \<and> (\<forall>t \<in> set sts. length (waiting t) \<le> RequiredConfig.concurrency (config this))
         \<and> successively (scrape_step this world) sts
         \<and> EmailScraper_scrapeEmails this sites world sched = Some (pushed (last sts))"
proof -
  have "runner_inv items limit s"
    using runner_inv_start assms(1) unfolding run_states_def by (rule runner_inv_drain)
  then have "activeCount s = int (length (pending s)) \<and> activeCount s \<le> int limit
         \<and> (index s < length items \<longrightarrow> length (pending s) = limit)
         \<and> (\<forall>i \<in> set (pending s). index s < length items \<longrightarrow>
               pending (settle items handler i s) = remove1 i (pending s) @ [index s]
               \<and> index (settle items handler i s) = Suc (index s))"
    by (auto simp: runner_inv_def settle_def runNext_def)
  moreover have "\<forall>t \<in> set sts. length (waiting t) \<le> RequiredConfig.concurrency (config this)"
    using scrape_states_waiting [OF assms(2)] by blast
  moreover have "successively (scrape_step this world) sts"
    using assms(2) by (rule scrape_states_steps)
  moreover have "EmailScraper_scrapeEmails this sites world sched = Some (pushed (last sts))"
    using assms(2) by (rule scrape_states_results)
  ultimately show ?thesis by blast
qed

theorem runner_sliding_window_witness:
  "\<lparr>results = [21], activeCount = 2, index = 3, pending = [0, 2], resolved = False\<rparr>
     \<in> set (run_states [10, 20, 30, 40, 50 :: nat] (\<lambda>x. Inr (Suc x)) 2 (\<lambda>ps. 1))
   \<and> (3::nat) < length [10, 20, 30, 40, 50 :: nat]
   \<and> pending (settle [10, 20, 30, 40, 50 :: nat] (\<lambda>x. Inr (Suc x)) 0
        \<lparr>results = [21], activeCount = 2, index = 3, pending = [0, 2], resolved = False\<rparr>)
      = [2, 3]
   \<and> scrape_states (new_EmailScraper None) [] (\<lambda>u k. Timeout ''late'') (\<lambda>k ps. 0)
      = Some [scrape_init []]
   \<and> EmailScraper_scrapeEmails (new_EmailScraper None) [] (\<lambda>u k. Timeout ''late'') (\<lambda>k ps. 0)
      = Some []"
proof -
  have mem: "\<lparr>results = [21], activeCount = 2, index = 3, pending = [0, 2], resolved = False\<rparr>
     \<in> set (run_states [10, 20, 30, 40, 50 :: nat] (\<lambda>x. Inr (Suc x)) 2 (\<lambda>ps. 1))"
    by code_simp
  have sts: "scrape_states (new_EmailScraper None) [] (\<lambda>u k. Timeout ''late'') (\<lambda>k ps. 0)
               = Some [scrape_init []]"
    by (simp add: scrape_states_def chunkArray_def chunk_loop.simps)
  from runner_sliding_window [OF mem sts] mem sts show ?thesis
    by (simp add: scrape_init_def)
qed

text \<open>
  Claim C5, as stated, fails on \<open>EmailScraper.scrapeEmails\<close>. With a concurrency of 2 and
  three sites of which the second finishes first, the states (urls of the results
  pushed, positions pending in the current chunk, links of the chunks not started) show
  one site in flight and the third site not started: it starts only after the first
  chunk has settled completely.
\<close>

theorem scrapeEmails_static_chunks_counterexample:
  "map_option (map (\<lambda>t. (map url (pushed t), waiting t, map (map link) (unstarted t))))
     (scrape_states (new_EmailScraper (Some (empty_config\<lparr>opt_concurrency := Some 2\<rparr>)))
        [\<lparr>title = ''A'', link = ''a''\<rparr>, \<lparr>title = ''B'', link = ''b''\<rparr>,
         \<lparr>title = ''C'', link = ''c''\<rparr>]
        (\<lambda>u k. Timeout ''late'') (\<lambda>k ps. 1))
   = Some [([], [], [[''a'', ''b''], [''c'']]),
           ([], [0, 1], [[''c'']]),
           ([''b''], [0], [[''c'']]),
           ([''b'', ''a''], [], [[''c'']]),
           ([''b'', ''a''], [0], []),
           ([''b'', ''a'', ''c''], [], [])]"
  by code_simp

text \<open>
  Claim C9 fails on the empty list: no worker is started, so \<open>runNext\<close>, the only place
  that resolves the promise, is never called. The run consists of the initial state
  alone and the promise stays pending.
\<close>

theorem runner_never_resolves_on_empty_input:
  "run_states [] handler limit pick = [runner_init]
   \<and> runWithConcurrency [] handler limit pick = None"
  by (simp add: runWithConcurrency_Nil run_states_def start_workers_Nil drain.simps
      runner_init_def)

section \<open>Properties of the orchestrator\<close>

lemma separate_Cons: "separate a (x # xs) = x # (if xs = [] then [] else a # separate a xs)"
  by (cases xs) simp_all

lemma scrape_item_delivered: "delivered (scrape_item world) xs = map (result_for world) xs"
  by (induction xs) (simp_all add: scrape_item_def result_for_def)

lemma batch_loop_correct:
  "0 < bs \<Longrightarrow> 0 < conc \<Longrightarrow>
   \<exists>out tr'. batch_loop links bs conc pause world sched i acc tr = Some (out, tr @ tr')
           \<and> map outline tr' = separate (Inr pause) (map Inl (chunks_of bs (drop i links)))
           \<and> out = acc @ filter (\<lambda>r. emails r \<noteq> []) (concat (map batch_results tr'))
           \<and> mset (concat (map batch_results tr')) = mset (map (result_for world) (drop i links))"
proof (induction links bs conc pause world sched i acc tr rule: batch_loop.induct)
  case (1 links bs conc pause world sched i allResults trace)
  note pos = \<open>0 < bs\<close> \<open>0 < conc\<close>
  show ?case
  proof (cases "i < length links")
    case False
    then show ?thesis by (subst batch_loop.simps) simp
  next
    case True
    let ?batch = "slice links i (i + bs)"
    have batch: "?batch = take bs (drop i links)" by (simp add: slice_def)
    have ne: "?batch \<noteq> []" using True pos(1) by (simp add: batch)
    have rest: "drop bs (drop i links) = drop (i + bs) links" by (simp add: add.commute)
    have split: "drop i links = ?batch @ drop (i + bs) links"
      using append_take_drop_id [of bs "drop i links"] by (simp add: slice_def add.commute)
    obtain rs where run: "runWithConcurrency ?batch (scrape_item world) conc (sched i) = Some rs"
      and rs: "mset rs = mset (map (result_for world) ?batch)"
      using runWithConcurrency_resolves [OF ne pos(2), of "scrape_item world" "sched i"]
      by (auto simp: scrape_item_delivered)
    let ?acc = "allResults @ filter (\<lambda>result. length (emails result) > 0) rs"
    let ?step = "[Batch ?batch rs] @ (if i + bs < length links then [Pause pause] else [])"
    from "1.IH" [OF True run pos]
    obtain out tr' where
      loop: "batch_loop links bs conc pause world sched (i + bs) ?acc (trace @ ?step)
               = Some (out, (trace @ ?step) @ tr')" and
      shape: "map outline tr' = separate (Inr pause) (map Inl (chunks_of bs (drop (i + bs) links)))" and
      out: "out = ?acc @ filter (\<lambda>r. emails r \<noteq> []) (concat (map batch_results tr'))" and
      all: "mset (concat (map batch_results tr')) = mset (map (result_for world) (drop (i + bs) links))"
      by blast
    have "batch_loop links bs conc pause world sched i allResults trace
            = Some (out, trace @ (?step @ tr'))"
      using True run loop by (subst batch_loop.simps) simp
    moreover have "map outline (?step @ tr')
            = separate (Inr pause) (map Inl (chunks_of bs (drop i links)))"
    proof -
      have "chunks_of bs (drop i links) = ?batch # chunks_of bs (drop (i + bs) links)"
        unfolding batch rest [symmetric] using True pos(1) by (intro chunks_of_step) simp_all
      moreover have "chunks_of bs (drop (i + bs) links) = [] \<longleftrightarrow> \<not> i + bs < length links"
        using pos(1) by (auto simp: chunks_of_eq_Nil)
      ultimately show ?thesis
        using shape by (simp add: separate_Cons)
    qed
    moreover have "out = allResults
            @ filter (\<lambda>r. emails r \<noteq> []) (concat (map batch_results (?step @ tr')))"
      using out by simp
    moreover have "mset (concat (map batch_results (?step @ tr')))
            = mset (map (result_for world) (drop i links))"
    proof -
      from split have "mset (map (result_for world) (drop i links))
             = mset (map (result_for world) ?batch) + mset (map (result_for world) (drop (i + bs) links))"
        by (metis map_append mset_append)
      with rs all show ?thesis by simp
    qed
    ultimately show ?thesis by blast
  qed
qed



text \<open>
  Claim C7. With a batch size and a concurrency of at least one, the list returned by
  \<open>processUrlBatch\<close> consists of exactly those results of its batches that have at
  least one email, and the results of its batches are, up to order, one result per
  link: so the list holds, up to order, exactly the per-link results with at least one
  email, and no entry of it has an empty list of emails.
\<close>

theorem processUrlBatch_keeps_results_with_emails:
  assumes "0 < or_default (batchSize options) 50"
    and "0 < or_default (ProcessOptions.concurrency options) 10"
  shows "\<exists>out tr. processUrlBatch links options world sched = Some (out, tr)
           \<and> out = filter (\<lambda>r. emails r \<noteq> []) (concat (map batch_results tr))
           \<and> mset out = mset (filter (\<lambda>r. emails r \<noteq> []) (map (result_for world) links))
           \<and> (\<forall>r \<in> set out. emails r \<noteq> [])"
proof -
  from batch_loop_correct [OF assms, of links "or_default (delayBetweenBatches options) 3000"
                             world sched 0 "[]" "[]"]
  obtain out tr where
    run: "processUrlBatch links options world sched = Some (out, tr)" and
    out: "out = filter (\<lambda>r. emails r \<noteq> []) (concat (map batch_results tr))" and
    all: "mset (concat (map batch_results tr)) = mset (map (result_for world) links)"
    by (auto simp: processUrlBatch_def)
  have "mset out = filter_mset (\<lambda>r. emails r \<noteq> []) (mset (concat (map batch_results tr)))"
    unfolding out by (rule mset_filter)
  also have "\<dots> = mset (filter (\<lambda>r. emails r \<noteq> []) (map (result_for world) links))"
    unfolding all by (rule mset_filter [symmetric])
  finally have "mset out = mset (filter (\<lambda>r. emails r \<noteq> []) (map (result_for world) links))" .
  moreover have "\<forall>r \<in> set out. emails r \<noteq> []"
    unfolding out by simp
  ultimately show ?thesis using run out by blast
qed

theorem processUrlBatch_keeps_results_with_emails_witness:
  "\<exists>out tr. processUrlBatch
       [\<lparr>title = ''A'', link = ''http://good.test''\<rparr>,
        \<lparr>title = ''B'', link = ''http://bad.test''\<rparr>]
       \<lparr>batchSize = None, concurrency = None, delayBetweenBatches = None\<rparr>
       (\<lambda>u. if u = ''http://good.test''
             then Success 200 ''write to contact@good.test, see logo@2x.png''
             else Timeout ''late'')
       (\<lambda>i ps. 0) = Some (out, tr)
     \<and> out = [\<lparr>title = ''A'', link = ''http://good.test'', emails = [''contact@good.test'']\<rparr>]"
proof -
  let ?world = "\<lambda>u. if u = ''http://good.test''
                     then Success 200 ''write to contact@good.test, see logo@2x.png''
                     else Timeout ''late''"
  let ?links = "[\<lparr>title = ''A'', link = ''http://good.test''\<rparr>,
                 \<lparr>title = ''B'', link = ''http://bad.test''\<rparr>]"
  have bs: "0 < or_default (batchSize \<lparr>batchSize = None, concurrency = None,
                                        delayBetweenBatches = None\<rparr>) 50"
    and conc: "0 < or_default (ProcessOptions.concurrency
                 \<lparr>batchSize = None, concurrency = None, delayBetweenBatches = None\<rparr>) 10"
    by (simp_all add: or_default_def)
  have ev: "filter (\<lambda>r. emails r \<noteq> []) (map (result_for ?world) ?links)
              = [\<lparr>title = ''A'', link = ''http://good.test'', emails = [''contact@good.test'']\<rparr>]"
    by code_simp
  from processUrlBatch_keeps_results_with_emails [OF bs conc, of ?links ?world "\<lambda>i ps. 0"]
  show ?thesis
    unfolding ev by auto
qed

text \<open>
  Claim C8, as the code has it. \<open>scrapeEmailsFromUrl\<close> returns no emails and issues no
  request for a URL that does not begin with \<open>http\<close> (the empty URL included), and the
  result the batch processor builds for such a target has no emails.
  \<open>EmailScraper.processSite\<close> has no check of the URL: it issues at least one request
  for such a URL too, and when every attempt fails it has issued \<open>maxRetries + 1\<close>
  requests before it returns its failed result without emails.
\<close>

theorem invalid_url_fails_fast:
  assumes "\<not> startsWith u ''http''"
  shows "scrapeEmailsFromUrl world u = ([], [])
         \<and> scrape_item world \<lparr>title = t, link = u\<rparr> = Inr \<lparr>title = t, link = u, emails = []\<rparr>
         \<and> 1 \<le> fetch_count (snd (EmailScraper_processSite this outcomes u))
         \<and> ((\<forall>j \<le> maxRetries (config this). \<not> is_Success (outcomes j)) \<longrightarrow>
              ScrapingResult.emails (fst (EmailScraper_processSite this outcomes u)) = []
              \<and> \<not> success (fst (EmailScraper_processSite this outcomes u))
              \<and> fetch_count (snd (EmailScraper_processSite this outcomes u))
                  = maxRetries (config this) + 1)"
proof -
  have "scrapeEmailsFromUrl world u = ([], [])
        \<and> scrape_item world \<lparr>title = t, link = u\<rparr> = Inr \<lparr>title = t, link = u, emails = []\<rparr>"
    using assms by (simp add: scrapeEmailsFromUrl_def scrape_item_def fetchEmails_def)
  moreover have "1 \<le> fetch_count (snd (EmailScraper_processSite this outcomes u))"
    using processSite_always_fetches [of this outcomes u] by simp
  ultimately show ?thesis
    using processSite_all_fail_result [of this outcomes u] by blast
qed

theorem invalid_url_fails_fast_witness:
  "scrapeEmailsFromUrl (\<lambda>u. Success 200 ''root@files.test'') ''ftp://files.test'' = ([], [])
   \<and> scrape_item (\<lambda>u. Success 200 ''root@files.test'') \<lparr>title = ''files'', link = ''ftp://files.test''\<rparr>
       = Inr \<lparr>title = ''files'', link = ''ftp://files.test'', emails = []\<rparr>
   \<and> 1 \<le> fetch_count (snd (EmailScraper_processSite (new_EmailScraper None)
                               (\<lambda>k. NetworkError ''Invalid URL'') ''ftp://files.test''))"
proof -
  have "\<not> startsWith ''ftp://files.test'' ''http''"
    by (simp add: startsWith_def)
  from invalid_url_fails_fast [OF this, of "\<lambda>u. Success 200 ''root@files.test''" "''files''"
         "new_EmailScraper None" "\<lambda>k. NetworkError ''Invalid URL''"]
  show ?thesis by blast
qed

text \<open>
  Claim C8, as stated, fails on \<open>EmailScraper.processSite\<close>: for the URL
  \<open>ftp://files.test\<close>, which does not begin with \<open>http\<close>, it calls \<open>fetch\<close> three times
  with the default configuration, sleeping between the attempts.
\<close>

theorem processSite_fetches_invalid_url_counterexample:
  "\<not> startsWith ''ftp://files.test'' ''http''
   \<and> snd (EmailScraper_processSite (new_EmailScraper None)
            (\<lambda>k. NetworkError ''Invalid URL'') ''ftp://files.test'')
       = [Fetch ''ftp://files.test'', Sleep 1000, Fetch ''ftp://files.test'', Sleep 1000,
          Fetch ''ftp://files.test'']"
  by code_simp

end
